theory Spec2Isabelle
  imports Complex_Main
begin

section \<open>Cached photos: the data model\<close>

text \<open>
  A shallow embedding of \<^verbatim>\<open>src/providers/CachedPhotosProvider/useCachedPhotos.ts\<close>.
  A JavaScript \<^verbatim>\<open>number\<close> is a \<^typ>\<open>real\<close> (no NaN, no infinities), a
  \<^verbatim>\<open>string\<close> is a \<^typ>\<open>string\<close>.
\<close>

datatype CachedPhotosLoadingState =
    IDLE
  | RESTORING_FROM_CACHE
  | RESTORED_FROM_CACHE
  | CALCULATING
  | COMPLETED

text \<open>
  The object literal \<^verbatim>\<open>{ originalPhotoUri, mipmapWidth }\<close> that
  \<^verbatim>\<open>generateCachedPhoto\<close> hands to the cache service: the cache key.
\<close>

record CacheKey =
  originalPhotoUri :: string
  mipmapWidth :: real

text \<open>
  Modelled from the spec: \<^verbatim>\<open>CachedPhotoType\<close> is declared in
  \<^verbatim>\<open>cache-service\<close>, which is not among the sources. The spec's CacheEntry is
  \<^verbatim>\<open>{key: CacheKey, renditionHandle: opaque reference to stored bytes}\<close>.
\<close>

record CachedPhotoType =
  key :: CacheKey
  renditionHandle :: string

text \<open>The React state of the hook (lines 44-50).\<close>

record hook_state =
  cachedPhotos :: "CachedPhotoType list"
  cachedPhotosLoadingState :: CachedPhotosLoadingState

text \<open>
  Modelled from the spec: the upstream providers' types are not among the sources. The
  hook compares the restoration statuses with \<^verbatim>\<open>"RESTORING"\<close> and the media
  library's loading state with \<^verbatim>\<open>"COMPLETED"\<close>; of a photo it reads \<^verbatim>\<open>uri\<close>.
\<close>

datatype StateRestorationStatus = RESTORING | SETTLED

datatype MediaLibraryLoadingState = ML_LOADING | ML_COMPLETED

record MediaLibraryPhoto =
  uri :: string

text \<open>What one render of the hook reads from its two providers (lines 34-42).\<close>

record upstream =
  singleImageSize :: real
  galleryUISettingsStateRestorationStatus :: StateRestorationStatus
  mediaLibraryPhotos :: "MediaLibraryPhoto list"
  mediaLibraryLoadingState :: MediaLibraryLoadingState
  mediaLibraryStateRestorationStatus :: StateRestorationStatus

datatype error = RenderError string

text \<open>
  The external collaborators of \<^verbatim>\<open>calculateNewCachePhoto\<close>, taken as parameters:
  \<^verbatim>\<open>PixelRatio.getPixelSizeForLayoutSize\<close> (react-native) and the chain
  \<^verbatim>\<open>ImageManipulator.manipulate(uri).resize({width}).renderAsync().saveAsync(...)\<close>
  (expo-image-manipulator), which yields the saved file's uri or fails.
\<close>

record platform =
  getPixelSizeForLayoutSize :: "real \<Rightarrow> real"
  renderAsync :: "string \<Rightarrow> real \<Rightarrow> error + string"

text \<open>
  What the code does to the world outside the React state, in the order it does it.
\<close>

datatype event =
    LimiterAcquire
  | RenderInvoke string real
  | LimiterRelease
  | StoreWrite CacheKey string
  | StoreClear
  | Warn
  | SetState hook_state

type_synonym persistent_store = "CacheKey \<rightharpoonup> string"

record world =
  store :: persistent_store
  events :: "event list"

definition emit :: "event list \<Rightarrow> world \<Rightarrow> world" where
  "emit es w = w\<lparr>events := events w @ es\<rparr>"

section \<open>The cache service\<close>

text \<open>
  Modelled from the spec: \<^verbatim>\<open>getPhotoFromCache\<close> of \<^verbatim>\<open>cache-service\<close> is not
  among the sources. Spec 4.2, step 2: look up the Persistent Store by key; on a hit,
  return the existing CacheEntry.
\<close>

definition getPhotoFromCache :: "CacheKey \<Rightarrow> persistent_store \<Rightarrow> CachedPhotoType option" where
  "getPhotoFromCache k s =
     map_option (\<lambda>h. \<lparr>key = k, renditionHandle = h\<rparr>) (s k)"

text \<open>
  Modelled from the spec: \<^verbatim>\<open>setPhotoInCache\<close> of \<^verbatim>\<open>cache-service\<close> is not
  among the sources. Spec 4.2, step 3: persist the result under the CacheKey and return
  the new CacheEntry; an entry is overwritten, not duplicated.
\<close>

definition setPhotoInCache :: "CacheKey \<Rightarrow> string \<Rightarrow> world \<Rightarrow> world \<times> CachedPhotoType" where
  "setPhotoInCache k resultUri w =
     (emit [StoreWrite k resultUri] (w\<lparr>store := (store w)(k \<mapsto> resultUri)\<rparr>),
      \<lparr>key = k, renditionHandle = resultUri\<rparr>)"

text \<open>
  Modelled from the spec: \<^verbatim>\<open>loadAllPhotosFromCache\<close> of \<^verbatim>\<open>cache-service\<close> is
  not among the sources. Spec 4.4: a read-only scan of the Persistent Store for every
  (source, width) key, returning only the entries found.
\<close>

definition loadAllPhotosFromCache ::
  "MediaLibraryPhoto list \<Rightarrow> real \<Rightarrow> persistent_store \<Rightarrow> CachedPhotoType list" where
  "loadAllPhotosFromCache photos width s =
     List.map_filter
       (\<lambda>photo. getPhotoFromCache \<lparr>originalPhotoUri = uri photo, mipmapWidth = width\<rparr> s)
       photos"

text \<open>
  Modelled from the spec: \<^verbatim>\<open>clearCache\<close> of \<^verbatim>\<open>cache-service\<close> is not among
  the sources. Spec 6: \<^verbatim>\<open>clearAll() -> void\<close> on the whole Persistent Store.
\<close>

definition clearCache :: "world \<Rightarrow> world" where
  "clearCache w = emit [StoreClear] (w\<lparr>store := Map.empty\<rparr>)"

section \<open>Resolving one photo\<close>

definition PROCESSING_BATCH_SIZE_LIMIT :: nat where
  "PROCESSING_BATCH_SIZE_LIMIT = 25"

definition CACHE_CALCULATION_PARALLELISM_LIMIT :: nat where
  "CACHE_CALCULATION_PARALLELISM_LIMIT = 30"

text \<open>
  \<^verbatim>\<open>calculateNewCachePhoto\<close> (lines 253-275): the body runs inside the limiter, which
  frees the slot whether the body resolves or rejects. The width in layout units is
  converted to pixels here, at the call of the render primitive.
\<close>

definition calculateNewCachePhoto ::
  "platform \<Rightarrow> string \<Rightarrow> real \<Rightarrow> world \<Rightarrow> world \<times> (error + string)" where
  "calculateNewCachePhoto plat photoUri width w =
     (let px = getPixelSizeForLayoutSize plat width
      in (emit [LimiterAcquire, RenderInvoke photoUri px, LimiterRelease] w,
          renderAsync plat photoUri px))"

text \<open>\<^verbatim>\<open>generateCachedPhoto\<close> (lines 220-246).\<close>

definition generateCachedPhoto ::
  "platform \<Rightarrow> string \<Rightarrow> real \<Rightarrow> world \<Rightarrow> world \<times> (error + CachedPhotoType)" where
  "generateCachedPhoto plat photoUri width w =
     (case getPhotoFromCache \<lparr>originalPhotoUri = photoUri, mipmapWidth = width\<rparr> (store w) of
        Some cached \<Rightarrow> (w, Inr cached)
      | None \<Rightarrow>
          (case calculateNewCachePhoto plat photoUri width w of
             (w1, Inl e) \<Rightarrow> (w1, Inl e)
           | (w1, Inr resultUri) \<Rightarrow>
               (case setPhotoInCache
                       \<lparr>originalPhotoUri = photoUri, mipmapWidth = width\<rparr> resultUri w1 of
                  (w2, cachedPhoto) \<Rightarrow> (w2, Inr cachedPhoto))))"

section \<open>The batch orchestrator\<close>

text \<open>
  \<^verbatim>\<open>Promise.all(nextPhotosBatch.map((photo) => generateCachedPhoto(photo.uri,
  singleImageSize)))\<close> (lines 75-79). Every resolution of the batch is started and none is
  cancelled when another one rejects; the join yields the results in the order of the
  batch, or the rejection. The resolutions run here one after the other in the order of
  the batch, and the rejection that the join reports is the first one in that order.
\<close>

fun generateCachedPhotosBatch ::
  "platform \<Rightarrow> real \<Rightarrow> MediaLibraryPhoto list \<Rightarrow> world
     \<Rightarrow> world \<times> (error + CachedPhotoType list)" where
  "generateCachedPhotosBatch plat width [] w = (w, Inr [])"
| "generateCachedPhotosBatch plat width (photo # rest) w =
     (case generateCachedPhoto plat (uri photo) width w of
        (w1, r) \<Rightarrow>
          (case generateCachedPhotosBatch plat width rest w1 of
             (w2, rs) \<Rightarrow>
               (w2, case r of
                      Inl e \<Rightarrow> Inl e
                    | Inr cachedPhoto \<Rightarrow>
                        (case rs of
                           Inl e \<Rightarrow> Inl e
                         | Inr cachedPhotosRest \<Rightarrow> Inr (cachedPhoto # cachedPhotosRest)))))"

text \<open>\<^verbatim>\<open>Array.prototype.slice(start, end)\<close> on indices that are natural numbers.\<close>

definition slice :: "'a list \<Rightarrow> nat \<Rightarrow> nat \<Rightarrow> 'a list" where
  "slice xs start end = take (end - start) (drop start xs)"

text \<open>
  The functional update of lines 84-94: append the batch to the previous list, and derive
  the loading state from the length of the new list.
\<close>

definition appendBatch :: "upstream \<Rightarrow> CachedPhotoType list \<Rightarrow> hook_state \<Rightarrow> hook_state" where
  "appendBatch up newCachedPhotosBatch prev =
     (let cachedPhotos' = cachedPhotos prev @ newCachedPhotosBatch
      in \<lparr>cachedPhotos = cachedPhotos',
          cachedPhotosLoadingState =
            (if length cachedPhotos' = length (mediaLibraryPhotos up)
             then COMPLETED else CALCULATING)\<rparr>)"

text \<open>The batch that the loop takes at \<^verbatim>\<open>processedPhotosCount\<close> (lines 66-69).\<close>

definition nextPhotosBatch :: "upstream \<Rightarrow> nat \<Rightarrow> MediaLibraryPhoto list" where
  "nextPhotosBatch up processedPhotosCount =
     slice (mediaLibraryPhotos up) processedPhotosCount
       (processedPhotosCount + PROCESSING_BATCH_SIZE_LIMIT)"

text \<open>
  The state of the hook is React's, and a pass is not its only writer. While a pass
  awaits a batch, other code may set the state: a recalculation that is accepted
  meanwhile (for the guard of lines 104-107 the state RESTORED_FROM_CACHE is not busy,
  and the pass started by line 204 leaves it so until its first batch is published), or
  a second pass. \<^verbatim>\<open>others n\<close> stands for what such code does to the state while the
  batch taken at \<^verbatim>\<open>processedPhotosCount = n\<close> is awaited; a pass that runs alone has
  \<^verbatim>\<open>alone\<close>.
\<close>

type_synonym other_writes = "nat \<Rightarrow> hook_state \<Rightarrow> hook_state"

definition alone :: other_writes where
  "alone n st = st"

text \<open>
  The loop of \<^verbatim>\<open>calculateCachedPhotos\<close> (lines 65-95), from
  \<^verbatim>\<open>processedPhotosCount\<close> on. The functional update of lines 84-94 receives as
  \<^verbatim>\<open>prev\<close> the current state of the hook: the state this pass knew, after the writes
  of other code meanwhile. A rejected batch makes the \<^verbatim>\<open>await\<close> throw: the loop is
  left, the pass sets no state for that batch and rejects with the error (the third
  component). The array \<^verbatim>\<open>processedPhotos\<close> only feeds the last log line.
\<close>

function calculateLoop ::
  "platform \<Rightarrow> upstream \<Rightarrow> other_writes \<Rightarrow> nat \<Rightarrow> world \<Rightarrow> hook_state
     \<Rightarrow> world \<times> hook_state \<times> error option" where
  "calculateLoop plat up others processedPhotosCount w st =
     (if processedPhotosCount < length (mediaLibraryPhotos up) then
        (case generateCachedPhotosBatch plat (singleImageSize up)
                (nextPhotosBatch up processedPhotosCount) w of
           (w1, Inl e) \<Rightarrow> (w1, others processedPhotosCount st, Some e)
         | (w1, Inr newCachedPhotosBatch) \<Rightarrow>
             calculateLoop plat up others
               (processedPhotosCount + length (nextPhotosBatch up processedPhotosCount))
               (emit [SetState (appendBatch up newCachedPhotosBatch
                                  (others processedPhotosCount st))] w1)
               (appendBatch up newCachedPhotosBatch (others processedPhotosCount st)))
      else (w, st, None))"
  by pat_completeness auto
termination
  by (relation "measure (\<lambda>(plat, up, others, n, w, st). length (mediaLibraryPhotos up) - n)")
     (auto simp: nextPhotosBatch_def slice_def PROCESSING_BATCH_SIZE_LIMIT_def)

text \<open>
  \<^verbatim>\<open>calculateCachedPhotos\<close> (lines 52-101); \<^verbatim>\<open>logPerformance\<close> is taken to run
  its callback and hand on its outcome.
\<close>

definition calculateCachedPhotos ::
  "platform \<Rightarrow> upstream \<Rightarrow> other_writes \<Rightarrow> world \<Rightarrow> hook_state
     \<Rightarrow> world \<times> hook_state \<times> error option" where
  "calculateCachedPhotos plat up others w st = calculateLoop plat up others 0 w st"

text \<open>\<^verbatim>\<open>recalculateCachedPhotos\<close> (lines 103-122).\<close>

definition recalculateCachedPhotos ::
  "platform \<Rightarrow> upstream \<Rightarrow> other_writes \<Rightarrow> world \<Rightarrow> hook_state
     \<Rightarrow> world \<times> hook_state \<times> error option" where
  "recalculateCachedPhotos plat up others w st =
     (if cachedPhotosLoadingState st = CALCULATING
         \<or> cachedPhotosLoadingState st = RESTORING_FROM_CACHE
      then (emit [Warn] w, st, None)
      else
        (let w1 = clearCache w;
             st1 = \<lparr>cachedPhotos = [], cachedPhotosLoadingState = CALCULATING\<rparr>
         in calculateCachedPhotos plat up others (emit [SetState st1] w1) st1))"

section \<open>The two effects\<close>

text \<open>The restoration effect (lines 128-190).\<close>

definition restorationEffect :: "upstream \<Rightarrow> world \<Rightarrow> hook_state \<Rightarrow> world \<times> hook_state" where
  "restorationEffect up w st =
     (if galleryUISettingsStateRestorationStatus up = RESTORING
         \<or> mediaLibraryStateRestorationStatus up = RESTORING
         \<or> mediaLibraryLoadingState up \<noteq> ML_COMPLETED
      then (w, st)
      else if cachedPhotosLoadingState st \<noteq> IDLE
      then (w, st)
      else
        (let st1 = \<lparr>cachedPhotos = [], cachedPhotosLoadingState = RESTORING_FROM_CACHE\<rparr>;
             w1 = emit [SetState st1] w;
             restored = loadAllPhotosFromCache (mediaLibraryPhotos up) (singleImageSize up)
                          (store w1)
         in if length restored = 0
            then
              (let st2 = \<lparr>cachedPhotos = [], cachedPhotosLoadingState = RESTORED_FROM_CACHE\<rparr>
               in (emit [SetState st2] w1, st2))
            else
              (let st2 = \<lparr>cachedPhotos = restored,
                          cachedPhotosLoadingState =
                            (if length restored = length (mediaLibraryPhotos up)
                             then COMPLETED else RESTORED_FROM_CACHE)\<rparr>
               in (emit [SetState st2] w1, st2))))"

text \<open>The calculation effect (lines 196-212).\<close>

definition calculationEffect ::
  "platform \<Rightarrow> upstream \<Rightarrow> other_writes \<Rightarrow> world \<Rightarrow> hook_state
     \<Rightarrow> world \<times> hook_state \<times> error option" where
  "calculationEffect plat up others w st =
     (if cachedPhotosLoadingState st \<noteq> RESTORED_FROM_CACHE
      then (w, st, None)
      else calculateCachedPhotos plat up others w st)"

text \<open>
  One restore/calculate cycle under unchanged upstream values: the restoration effect
  sets the state, the render that follows fires the calculation effect on that state.
\<close>

definition restoreCalculateCycle ::
  "platform \<Rightarrow> upstream \<Rightarrow> other_writes \<Rightarrow> world \<Rightarrow> hook_state
     \<Rightarrow> world \<times> hook_state \<times> error option" where
  "restoreCalculateCycle plat up others w st =
     (case restorationEffect up w st of
        (w1, st1) \<Rightarrow> calculationEffect plat up others w1 st1)"

definition initialState :: hook_state where
  "initialState = \<lparr>cachedPhotos = [], cachedPhotosLoadingState = IDLE\<rparr>"

section \<open>Notions for stating the properties\<close>

text \<open>The cache key of a photo of the media library at a width.\<close>

definition photoKey :: "real \<Rightarrow> MediaLibraryPhoto \<Rightarrow> CacheKey" where
  "photoKey width photo = \<lparr>originalPhotoUri = uri photo, mipmapWidth = width\<rparr>"

definition resolvedHandle :: "platform \<Rightarrow> persistent_store \<Rightarrow> CacheKey \<Rightarrow> string option" where
  "resolvedHandle plat s k =
     (case s k of
        Some h \<Rightarrow> Some h
      | None \<Rightarrow>
          (case renderAsync plat (originalPhotoUri k)
                  (getPixelSizeForLayoutSize plat (mipmapWidth k)) of
             Inl e \<Rightarrow> None
           | Inr resultUri \<Rightarrow> Some resultUri))"

definition resolvedEntry :: "platform \<Rightarrow> persistent_store \<Rightarrow> CacheKey \<Rightarrow> CachedPhotoType option" where
  "resolvedEntry plat s k =
     map_option (\<lambda>h. \<lparr>key = k, renditionHandle = h\<rparr>) (resolvedHandle plat s k)"

definition resolutionEvents ::
  "platform \<Rightarrow> real \<Rightarrow> persistent_store \<Rightarrow> MediaLibraryPhoto set \<Rightarrow> event set" where
  "resolutionEvents plat width s photos =
     {LimiterAcquire, LimiterRelease}
     \<union> {e. \<exists>photo \<in> photos. s (photoKey width photo) = None
              \<and> e = RenderInvoke (uri photo) (getPixelSizeForLayoutSize plat width)}
     \<union> {e. \<exists>photo \<in> photos. \<exists>h. s (photoKey width photo) = None
              \<and> resolvedHandle plat s (photoKey width photo) = Some h
              \<and> e = StoreWrite (photoKey width photo) h}"

definition emitted :: "world \<Rightarrow> world \<Rightarrow> event list" where
  "emitted w w' = drop (length (events w)) (events w')"

text \<open>The render invocations among a list of events, in order.\<close>

fun renderInvocations :: "event list \<Rightarrow> (string \<times> real) list" where
  "renderInvocations [] = []"
| "renderInvocations (RenderInvoke u px # es) = (u, px) # renderInvocations es"
| "renderInvocations (e # es) = renderInvocations es"

section \<open>Concrete scenarios\<close>

text \<open>Settled providers with the given target width and photos.\<close>

definition settledUpstream :: "real \<Rightarrow> string list \<Rightarrow> upstream" where
  "settledUpstream width uris =
     \<lparr>singleImageSize = width,
      galleryUISettingsStateRestorationStatus = SETTLED,
      mediaLibraryPhotos = map (\<lambda>u. \<lparr>uri = u\<rparr>) uris,
      mediaLibraryLoadingState = ML_COMPLETED,
      mediaLibraryStateRestorationStatus = SETTLED\<rparr>"

text \<open>A device of pixel density 2, respectively 3, on which every render succeeds.\<close>

definition densityTwo :: platform where
  "densityTwo =
     \<lparr>getPixelSizeForLayoutSize = (\<lambda>width. 2 * width),
      renderAsync = (\<lambda>u px. Inr (u @ ''.jpg''))\<rparr>"

definition densityThree :: platform where
  "densityThree =
     \<lparr>getPixelSizeForLayoutSize = (\<lambda>width. 3 * width),
      renderAsync = (\<lambda>u px. Inr (u @ ''.jpg''))\<rparr>"

text \<open>A device of pixel density 2 on which the render of one photo fails.\<close>

definition failingOn :: "string \<Rightarrow> platform" where
  "failingOn bad =
     \<lparr>getPixelSizeForLayoutSize = (\<lambda>width. 2 * width),
      renderAsync = (\<lambda>u px. if u = bad then Inl (RenderError u) else Inr (u @ ''.jpg''))\<rparr>"

text \<open>A store that holds an entry for each of the given photos at the given width.\<close>

definition storeOf :: "real \<Rightarrow> string list \<Rightarrow> persistent_store" where
  "storeOf width uris =
     map_of (map (\<lambda>u. (\<lparr>originalPhotoUri = u, mipmapWidth = width\<rparr>, u @ ''.cached'')) uris)"

definition worldOf :: "persistent_store \<Rightarrow> world" where
  "worldOf s = \<lparr>store = s, events = []\<rparr>"

definition cachedAt :: "real \<Rightarrow> string \<Rightarrow> string \<Rightarrow> CachedPhotoType" where
  "cachedAt width u h =
     \<lparr>key = \<lparr>originalPhotoUri = u, mipmapWidth = width\<rparr>, renditionHandle = h\<rparr>"

text \<open>Twenty-six photos: one full batch and one more.\<close>

definition alphabet :: "string list" where
  "alphabet =
     [''a'', ''b'', ''c'', ''d'', ''e'', ''f'', ''g'', ''h'', ''i'', ''j'', ''k'', ''l'', ''m'',
      ''n'', ''o'', ''p'', ''q'', ''r'', ''s'', ''t'', ''u'', ''v'', ''w'', ''x'', ''y'', ''z'']"

definition restoredNothing :: hook_state where
  "restoredNothing = \<lparr>cachedPhotos = [], cachedPhotosLoadingState = RESTORED_FROM_CACHE\<rparr>"

text \<open>
  A recalculation that is requested while a pass awaits its first batch, and runs alone
  to its end before that batch is joined: it finds the state the pass started from.
\<close>

definition recalculationMeanwhile :: "platform \<Rightarrow> upstream \<Rightarrow> world \<Rightarrow> other_writes" where
  "recalculationMeanwhile plat up w n st =
     (if n = 0 then fst (snd (recalculateCachedPhotos plat up alone w st)) else st)"

section \<open>One resolution\<close>

lemma generateCachedPhoto_hit:
  "store w \<lparr>originalPhotoUri = u, mipmapWidth = width\<rparr> = Some h \<Longrightarrow>
   generateCachedPhoto plat u width w =
     (w, Inr \<lparr>key = \<lparr>originalPhotoUri = u, mipmapWidth = width\<rparr>, renditionHandle = h\<rparr>)"
  by (simp add: generateCachedPhoto_def getPhotoFromCache_def)

lemma generateCachedPhoto_miss_ok:
  "store w \<lparr>originalPhotoUri = u, mipmapWidth = width\<rparr> = None \<Longrightarrow>
   renderAsync plat u (getPixelSizeForLayoutSize plat width) = Inr resultUri \<Longrightarrow>
   generateCachedPhoto plat u width w =
     (w\<lparr>store := (store w)(\<lparr>originalPhotoUri = u, mipmapWidth = width\<rparr> \<mapsto> resultUri),
        events := events w @
          [LimiterAcquire, RenderInvoke u (getPixelSizeForLayoutSize plat width), LimiterRelease,
           StoreWrite \<lparr>originalPhotoUri = u, mipmapWidth = width\<rparr> resultUri]\<rparr>,
      Inr \<lparr>key = \<lparr>originalPhotoUri = u, mipmapWidth = width\<rparr>, renditionHandle = resultUri\<rparr>)"
  by (simp add: generateCachedPhoto_def getPhotoFromCache_def calculateNewCachePhoto_def
      setPhotoInCache_def emit_def)

lemma generateCachedPhoto_miss_fail:
  "store w \<lparr>originalPhotoUri = u, mipmapWidth = width\<rparr> = None \<Longrightarrow>
   renderAsync plat u (getPixelSizeForLayoutSize plat width) = Inl e \<Longrightarrow>
   generateCachedPhoto plat u width w =
     (w\<lparr>events := events w @
          [LimiterAcquire, RenderInvoke u (getPixelSizeForLayoutSize plat width), LimiterRelease]\<rparr>,
      Inl e)"
  by (simp add: generateCachedPhoto_def getPhotoFromCache_def calculateNewCachePhoto_def emit_def)

lemma generateCachedPhoto_store:
  "store (fst (generateCachedPhoto plat u width w)) k =
     (if k = \<lparr>originalPhotoUri = u, mipmapWidth = width\<rparr>
      then resolvedHandle plat (store w) k else store w k)"
proof (cases "store w \<lparr>originalPhotoUri = u, mipmapWidth = width\<rparr>")
  case (Some h)
  then show ?thesis
    by (simp add: generateCachedPhoto_hit resolvedHandle_def)
next
  case None
  show ?thesis
  proof (cases "renderAsync plat u (getPixelSizeForLayoutSize plat width)")
    case (Inl e)
    with None show ?thesis
      by (simp add: generateCachedPhoto_miss_fail resolvedHandle_def)
  next
    case (Inr r)
    with None show ?thesis
      by (simp add: generateCachedPhoto_miss_ok resolvedHandle_def)
  qed
qed

lemma generateCachedPhoto_result:
  "snd (generateCachedPhoto plat u width w) =
     (case resolvedHandle plat (store w) \<lparr>originalPhotoUri = u, mipmapWidth = width\<rparr> of
        Some h \<Rightarrow> Inr \<lparr>key = \<lparr>originalPhotoUri = u, mipmapWidth = width\<rparr>, renditionHandle = h\<rparr>
      | None \<Rightarrow>
          (case renderAsync plat u (getPixelSizeForLayoutSize plat width) of
             Inl e \<Rightarrow> Inl e | Inr r \<Rightarrow> Inr \<lparr>key = \<lparr>originalPhotoUri = u, mipmapWidth = width\<rparr>, renditionHandle = r\<rparr>))"
proof (cases "store w \<lparr>originalPhotoUri = u, mipmapWidth = width\<rparr>")
  case (Some h)
  then show ?thesis
    by (simp add: generateCachedPhoto_hit resolvedHandle_def)
next
  case None
  show ?thesis
  proof (cases "renderAsync plat u (getPixelSizeForLayoutSize plat width)")
    case (Inl e)
    with None show ?thesis
      by (simp add: generateCachedPhoto_miss_fail resolvedHandle_def)
  next
    case (Inr r)
    with None show ?thesis
      by (simp add: generateCachedPhoto_miss_ok resolvedHandle_def)
  qed
qed

lemma resolvedHandle_stable:
  assumes "\<And>k. s' k = (if k \<in> K then resolvedHandle plat s k else s k)"
  shows "resolvedHandle plat s' k = resolvedHandle plat s k"
  using assms[of k]
  by (auto simp: resolvedHandle_def split: option.splits sum.splits)

lemma generateCachedPhoto_resolved:
  "resolvedHandle plat (store (fst (generateCachedPhoto plat u width w))) k =
   resolvedHandle plat (store w) k"
  by (rule resolvedHandle_stable[where K = "{\<lparr>originalPhotoUri = u, mipmapWidth = width\<rparr>}"])
     (simp add: generateCachedPhoto_store)

lemma batch_Cons_fst:
  "fst (generateCachedPhotosBatch plat width (photo # rest) w) =
   fst (generateCachedPhotosBatch plat width rest
          (fst (generateCachedPhoto plat (uri photo) width w)))"
  by (simp split: prod.splits)

lemma batch_Cons_snd:
  "snd (generateCachedPhotosBatch plat width (photo # rest) w) =
     (case snd (generateCachedPhoto plat (uri photo) width w) of
        Inl e \<Rightarrow> Inl e
      | Inr c \<Rightarrow>
          (case snd (generateCachedPhotosBatch plat width rest
                       (fst (generateCachedPhoto plat (uri photo) width w))) of
             Inl e \<Rightarrow> Inl e
           | Inr cs \<Rightarrow> Inr (c # cs)))"
  by (simp split: prod.splits sum.splits)

declare generateCachedPhotosBatch.simps(2) [simp del]

lemma batch_store:
  "store (fst (generateCachedPhotosBatch plat width photos w)) k =
     (if k \<in> photoKey width ` set photos then resolvedHandle plat (store w) k else store w k)"
proof (induction photos arbitrary: w)
  case Nil
  then show ?case by simp
next
  case (Cons photo rest)
  show ?case
    unfolding batch_Cons_fst Cons.IH
    by (simp add: generateCachedPhoto_resolved generateCachedPhoto_store photoKey_def)
qed

lemma batch_resolved:
  "resolvedHandle plat (store (fst (generateCachedPhotosBatch plat width photos w))) k =
   resolvedHandle plat (store w) k"
  by (rule resolvedHandle_stable[where K = "photoKey width ` set photos"])
     (simp add: batch_store)


lemma resolvedEntry_stable:
  assumes "\<And>k. s' k = (if k \<in> K then resolvedHandle plat s k else s k)"
  shows "resolvedEntry plat s' k = resolvedEntry plat s k"
  by (simp add: resolvedEntry_def resolvedHandle_stable[OF assms])

lemma generateCachedPhoto_ok_iff:
  "(snd (generateCachedPhoto plat u width w) = Inr c) =
   (resolvedEntry plat (store w) \<lparr>originalPhotoUri = u, mipmapWidth = width\<rparr> = Some c)"
  by (auto simp: generateCachedPhoto_result resolvedEntry_def resolvedHandle_def
      split: option.splits sum.splits)

lemma generateCachedPhoto_fail_iff:
  "(\<exists>e. snd (generateCachedPhoto plat u width w) = Inl e) =
   (resolvedHandle plat (store w) \<lparr>originalPhotoUri = u, mipmapWidth = width\<rparr> = None)"
  by (auto simp: generateCachedPhoto_result resolvedHandle_def
      split: option.splits sum.splits)

lemma batch_ok_entries:
  "snd (generateCachedPhotosBatch plat width photos w) = Inr cs \<Longrightarrow>
   map Some cs = map (resolvedEntry plat (store w) \<circ> photoKey width) photos"
proof (induction photos arbitrary: w cs)
  case Nil
  then show ?case by simp
next
  case (Cons photo rest)
  let ?g = "generateCachedPhoto plat (uri photo) width w"
  from Cons.prems obtain c cs' where
    c: "snd ?g = Inr c" and
    cs': "snd (generateCachedPhotosBatch plat width rest (fst ?g)) = Inr cs'" and
    cs: "cs = c # cs'"
    by (auto simp: batch_Cons_snd split: sum.splits)
  have "map Some cs' = map (resolvedEntry plat (store (fst ?g)) \<circ> photoKey width) rest"
    by (rule Cons.IH[OF cs'])
  moreover have "resolvedEntry plat (store (fst ?g)) = resolvedEntry plat (store w)"
    by (rule ext, rule resolvedEntry_stable[where K = "{\<lparr>originalPhotoUri = uri photo, mipmapWidth = width\<rparr>}"])
       (simp add: generateCachedPhoto_store)
  moreover have "resolvedEntry plat (store w) (photoKey width photo) = Some c"
    using c by (simp add: generateCachedPhoto_ok_iff photoKey_def)
  ultimately show ?case
    by (simp add: cs)
qed

lemma batch_fail_iff:
  "(\<exists>e. snd (generateCachedPhotosBatch plat width photos w) = Inl e) =
   (\<exists>photo \<in> set photos. resolvedHandle plat (store w) (photoKey width photo) = None)"
proof (induction photos arbitrary: w)
  case Nil
  then show ?case by simp
next
  case (Cons photo rest)
  let ?g = "generateCachedPhoto plat (uri photo) width w"
  have rest: "(\<exists>e. snd (generateCachedPhotosBatch plat width rest (fst ?g)) = Inl e) =
      (\<exists>p \<in> set rest. resolvedHandle plat (store w) (photoKey width p) = None)"
    by (simp add: Cons.IH generateCachedPhoto_resolved)
  have first: "(\<exists>e. snd ?g = Inl e) =
      (resolvedHandle plat (store w) (photoKey width photo) = None)"
    by (simp add: generateCachedPhoto_fail_iff photoKey_def)
  show ?case
  proof (cases "snd ?g")
    case (Inl e)
    with first show ?thesis
      by (auto simp: batch_Cons_snd)
  next
    case (Inr c)
    with first have ok: "resolvedHandle plat (store w) (photoKey width photo) \<noteq> None"
      by auto
    show ?thesis
    proof (cases "snd (generateCachedPhotosBatch plat width rest (fst ?g))")
      case (Inl e)
      with Inr rest show ?thesis
        by (auto simp: batch_Cons_snd)
    next
      case r: (Inr cs)
      with Inr rest ok show ?thesis
        by (auto simp: batch_Cons_snd)
    qed
  qed
qed

lemma resolutionEvents_mono:
  assumes "P \<subseteq> Q"
    and "\<And>k. s' k = (if k \<in> K then resolvedHandle plat s k else s k)"
  shows "resolutionEvents plat width s' P \<subseteq> resolutionEvents plat width s Q"
proof -
  have none: "\<And>k. s' k = None \<Longrightarrow> s k = None"
    using assms(2) by (auto simp: resolvedHandle_def split: if_splits option.splits)
  have res: "\<And>k. resolvedHandle plat s' k = resolvedHandle plat s k"
    by (rule resolvedHandle_stable[OF assms(2)])
  show ?thesis
    using assms(1) none
    by (fastforce simp: resolutionEvents_def res)
qed

lemma generateCachedPhoto_events:
  "\<exists>es. events (fst (generateCachedPhoto plat (uri photo) width w)) = events w @ es
        \<and> set es \<subseteq> resolutionEvents plat width (store w) {photo}"
proof (cases "store w \<lparr>originalPhotoUri = uri photo, mipmapWidth = width\<rparr>")
  case (Some h)
  then show ?thesis
    by (simp add: generateCachedPhoto_hit)
next
  case None
  show ?thesis
  proof (cases "renderAsync plat (uri photo) (getPixelSizeForLayoutSize plat width)")
    case (Inl e)
    with None show ?thesis
      by (simp add: generateCachedPhoto_miss_fail resolutionEvents_def photoKey_def)
  next
    case (Inr r)
    with None show ?thesis
      by (simp add: generateCachedPhoto_miss_ok resolutionEvents_def photoKey_def
          resolvedHandle_def)
  qed
qed

lemma batch_events:
  "\<exists>es. events (fst (generateCachedPhotosBatch plat width photos w)) = events w @ es
        \<and> set es \<subseteq> resolutionEvents plat width (store w) (set photos)"
proof (induction photos arbitrary: w)
  case Nil
  then show ?case by simp
next
  case (Cons photo rest)
  let ?g = "generateCachedPhoto plat (uri photo) width w"
  obtain es1 where es1: "events (fst ?g) = events w @ es1"
    "set es1 \<subseteq> resolutionEvents plat width (store w) {photo}"
    using generateCachedPhoto_events by blast
  obtain es2 where es2:
    "events (fst (generateCachedPhotosBatch plat width rest (fst ?g))) = events (fst ?g) @ es2"
    "set es2 \<subseteq> resolutionEvents plat width (store (fst ?g)) (set rest)"
    using Cons.IH by blast
  have "resolutionEvents plat width (store w) {photo}
          \<subseteq> resolutionEvents plat width (store w) (set (photo # rest))"
    by (auto simp: resolutionEvents_def)
  moreover have "resolutionEvents plat width (store (fst ?g)) (set rest)
          \<subseteq> resolutionEvents plat width (store w) (set (photo # rest))"
    by (rule resolutionEvents_mono[where K = "{\<lparr>originalPhotoUri = uri photo, mipmapWidth = width\<rparr>}"])
       (auto simp: generateCachedPhoto_store)
  ultimately have "set (es1 @ es2) \<subseteq> resolutionEvents plat width (store w) (set (photo # rest))"
    using es1(2) es2(2) by auto
  moreover have "events (fst (generateCachedPhotosBatch plat width (photo # rest) w))
      = events w @ (es1 @ es2)"
    by (simp add: batch_Cons_fst es1(1) es2(1))
  ultimately show ?case
    by blast
qed

section \<open>The loop of the calculation pass\<close>

declare calculateLoop.simps [simp del]

lemma store_emit [simp]: "store (emit es w) = store w"
  by (simp add: emit_def)

lemma events_emit [simp]: "events (emit es w) = events w @ es"
  by (simp add: emit_def)

lemma calculateLoop_done:
  "\<not> n < length (mediaLibraryPhotos up) \<Longrightarrow> calculateLoop plat up others n w st = (w, st, None)"
  by (simp add: calculateLoop.simps)

lemma calculateLoop_fail:
  "n < length (mediaLibraryPhotos up) \<Longrightarrow>
   snd (generateCachedPhotosBatch plat (singleImageSize up) (nextPhotosBatch up n) w) = Inl e \<Longrightarrow>
   calculateLoop plat up others n w st =
     (fst (generateCachedPhotosBatch plat (singleImageSize up) (nextPhotosBatch up n) w),
      others n st, Some e)"
  by (subst calculateLoop.simps,
      cases "generateCachedPhotosBatch plat (singleImageSize up) (nextPhotosBatch up n) w")
     simp

lemma calculateLoop_step:
  "n < length (mediaLibraryPhotos up) \<Longrightarrow>
   snd (generateCachedPhotosBatch plat (singleImageSize up) (nextPhotosBatch up n) w) = Inr cs \<Longrightarrow>
   calculateLoop plat up others n w st =
     calculateLoop plat up others (n + length (nextPhotosBatch up n))
       (emit [SetState (appendBatch up cs (others n st))]
          (fst (generateCachedPhotosBatch plat (singleImageSize up) (nextPhotosBatch up n) w)))
       (appendBatch up cs (others n st))"
  by (subst calculateLoop.simps,
      cases "generateCachedPhotosBatch plat (singleImageSize up) (nextPhotosBatch up n) w")
     simp

lemma slice_append:
  "n \<le> a \<Longrightarrow> a \<le> m \<Longrightarrow> slice xs n a @ slice xs a m = slice xs n m"
proof -
  assume "n \<le> a" "a \<le> m"
  then have "m - n = (a - n) + (m - a)" by simp
  then have "take (m - n) (drop n xs) = take (a - n) (drop n xs) @ take (m - a) (drop (a - n) (drop n xs))"
    by (simp only: take_add)
  moreover have "drop (a - n) (drop n xs) = drop a xs"
    using \<open>n \<le> a\<close> by simp
  ultimately show ?thesis
    by (simp add: slice_def)
qed

lemma slice_empty [simp]: "slice xs n n = []"
  by (simp add: slice_def)

lemma nextPhotosBatch_slice:
  "nextPhotosBatch up n = slice (mediaLibraryPhotos up) n (n + length (nextPhotosBatch up n))"
  by (simp add: nextPhotosBatch_def slice_def min_def)

lemma nextPhotosBatch_length:
  "length (nextPhotosBatch up n) = min PROCESSING_BATCH_SIZE_LIMIT (length (mediaLibraryPhotos up) - n)"
  by (simp add: nextPhotosBatch_def slice_def)


lemma set_slice_append:
  "n \<le> a \<Longrightarrow> a \<le> m \<Longrightarrow> set (slice xs n m) = set (slice xs n a) \<union> set (slice xs a m)"
proof -
  assume "n \<le> a" "a \<le> m"
  then have "slice xs n m = slice xs n a @ slice xs a m"
    by (simp only: slice_append)
  then show ?thesis
    by (simp only: set_append)
qed

lemma appendBatch_cachedPhotos [simp]:
  "cachedPhotos (appendBatch up cs st) = cachedPhotos st @ cs"
  by (simp add: appendBatch_def Let_def)

lemma calculateLoop_outcome:
  "calculateLoop plat up others n w st = (w', st', r) \<Longrightarrow>
   \<exists>m. n \<le> m \<and> (m \<le> length (mediaLibraryPhotos up) \<or> m = n) \<and>
     (others = alone \<longrightarrow>
        map Some (cachedPhotos st') =
          map Some (cachedPhotos st) @
          map (resolvedEntry plat (store w) \<circ> photoKey (singleImageSize up))
            (slice (mediaLibraryPhotos up) n m)) \<and>
     (r = None \<longrightarrow> length (mediaLibraryPhotos up) \<le> m) \<and>
     (r \<noteq> None \<longrightarrow> m < length (mediaLibraryPhotos up) \<and>
        (\<exists>photo \<in> set (nextPhotosBatch up m).
           resolvedHandle plat (store w) (photoKey (singleImageSize up) photo) = None)) \<and>
     (\<forall>k. store w' k =
        (if k \<in> photoKey (singleImageSize up) `
               set (slice (mediaLibraryPhotos up) n
                      (if r = None then m else m + PROCESSING_BATCH_SIZE_LIMIT))
         then resolvedHandle plat (store w) k else store w k))"
proof (induction plat up others n w st arbitrary: w' st' r rule: calculateLoop.induct)
  case (1 plat up others n w st)
  let ?P = "mediaLibraryPhotos up"
  let ?W = "singleImageSize up"
  let ?b = "generateCachedPhotosBatch plat ?W (nextPhotosBatch up n) w"
  show ?case
  proof (cases "n < length ?P")
    case False
    with "1.prems" have "w' = w" "st' = st" "r = None"
      by (simp_all add: calculateLoop_done)
    with False show ?thesis
      by (intro exI[of _ n]) simp
  next
    case True
    show ?thesis
    proof (cases "snd ?b")
      case (Inl e)
      with True "1.prems" have res: "w' = fst ?b" "st' = others n st" "r = Some e"
        by (simp_all add: calculateLoop_fail)
      have "\<exists>photo \<in> set (nextPhotosBatch up n).
              resolvedHandle plat (store w) (photoKey ?W photo) = None"
        using Inl batch_fail_iff[of plat ?W "nextPhotosBatch up n" w] by blast
      with True res show ?thesis
        by (intro exI[of _ n]) (simp add: batch_store nextPhotosBatch_def alone_def)
    next
      case (Inr cs)
      let ?n1 = "n + length (nextPhotosBatch up n)"
      let ?st1 = "appendBatch up cs (others n st)"
      obtain w1 rs where b: "(w1, rs) = ?b"
        by (cases ?b) simp
      then have w1: "w1 = fst ?b" and rs: "rs = Inr cs"
        using Inr by (simp_all add: b[symmetric])
      let ?w1 = "emit [SetState ?st1] w1"
      have loop: "calculateLoop plat up others ?n1 ?w1 ?st1 = (w', st', r)"
        using True Inr "1.prems" by (simp add: calculateLoop_step w1)
      have st1: "\<And>k. store w1 k = (if k \<in> photoKey ?W ` set (nextPhotosBatch up n)
                    then resolvedHandle plat (store w) k else store w k)"
        by (simp add: batch_store w1)
      have rh: "\<And>k. resolvedHandle plat (store w1) k = resolvedHandle plat (store w) k"
        unfolding w1 by (rule batch_resolved)
      have re: "resolvedEntry plat (store w1) = resolvedEntry plat (store w)"
        by (rule ext) (simp add: resolvedEntry_def rh)
      have "\<exists>m. ?n1 \<le> m \<and> (m \<le> length ?P \<or> m = ?n1) \<and>
        (others = alone \<longrightarrow>
           map Some (cachedPhotos st') =
               map Some (cachedPhotos ?st1) @
               map (resolvedEntry plat (store ?w1) \<circ> photoKey ?W) (slice ?P ?n1 m)) \<and>
        (r = None \<longrightarrow> length ?P \<le> m) \<and>
        (r \<noteq> None \<longrightarrow> m < length ?P \<and>
               (\<exists>photo \<in> set (nextPhotosBatch up m).
                  resolvedHandle plat (store ?w1) (photoKey ?W photo) = None)) \<and>
        (\<forall>k. store w' k =
               (if k \<in> photoKey ?W ` set (slice ?P ?n1
                       (if r = None then m else m + PROCESSING_BATCH_SIZE_LIMIT))
                then resolvedHandle plat (store ?w1) k else store ?w1 k))"
        by (rule "1.IH"[OF True b rs loop])
      then obtain m where
        m: "?n1 \<le> m" "m \<le> length ?P \<or> m = ?n1" and
        cps: "others = alone \<longrightarrow>
               map Some (cachedPhotos st') =
               map Some (cachedPhotos ?st1) @
               map (resolvedEntry plat (store ?w1) \<circ> photoKey ?W) (slice ?P ?n1 m)" and
        ok: "r = None \<longrightarrow> length ?P \<le> m" and
        bad: "r \<noteq> None \<longrightarrow> m < length ?P \<and>
               (\<exists>photo \<in> set (nextPhotosBatch up m).
                  resolvedHandle plat (store ?w1) (photoKey ?W photo) = None)" and
        sto: "\<forall>k. store w' k =
               (if k \<in> photoKey ?W ` set (slice ?P ?n1
                       (if r = None then m else m + PROCESSING_BATCH_SIZE_LIMIT))
                then resolvedHandle plat (store ?w1) k else store ?w1 k)"
        by (elim exE conjE)
      have n1_le: "?n1 \<le> length ?P"
        using True by (simp add: nextPhotosBatch_length)
      have batch: "nextPhotosBatch up n = slice ?P n ?n1"
        by (rule nextPhotosBatch_slice)
      have ents: "map Some cs = map (resolvedEntry plat (store w) \<circ> photoKey ?W) (slice ?P n ?n1)"
        using batch_ok_entries[OF Inr] batch by simp
      have c1: "others = alone \<longrightarrow>
                 map Some (cachedPhotos st') =
                 map Some (cachedPhotos st) @
                 map (resolvedEntry plat (store w) \<circ> photoKey ?W) (slice ?P n m)"
      proof
        assume a: "others = alone"
        have prev: "others n st = st"
          by (simp add: a alone_def)
        from cps a have "map Some (cachedPhotos st') =
               map Some (cachedPhotos ?st1) @
               map (resolvedEntry plat (store ?w1) \<circ> photoKey ?W) (slice ?P ?n1 m)"
          by (rule mp)
        then show "map Some (cachedPhotos st') =
                 map Some (cachedPhotos st) @
                 map (resolvedEntry plat (store w) \<circ> photoKey ?W) (slice ?P n m)"
          using ents m(1)
          by (simp add: prev re slice_append[of n ?n1 m ?P, symmetric])
      qed
      let ?M = "if r = None then m else m + PROCESSING_BATCH_SIZE_LIMIT"
      have M: "?n1 \<le> ?M" using m(1) by simp
      have sets: "set (slice ?P n ?M) = set (nextPhotosBatch up n) \<union> set (slice ?P ?n1 ?M)"
        using set_slice_append[of n ?n1 ?M ?P] M batch by simp
      have c2: "\<forall>k. store w' k =
               (if k \<in> photoKey ?W ` set (slice ?P n ?M)
                then resolvedHandle plat (store w) k else store w k)"
        unfolding sets using sto by (auto simp: rh st1)
      have c3: "r \<noteq> None \<longrightarrow> m < length ?P \<and>
               (\<exists>photo \<in> set (nextPhotosBatch up m).
                  resolvedHandle plat (store w) (photoKey ?W photo) = None)"
        using bad by (simp add: rh)
      have c4: "n \<le> m" "m \<le> length ?P \<or> m = n"
        using m n1_le by auto
      show ?thesis
        by (intro exI[of _ m] conjI c1 c2 c3 c4 ok)
    qed
  qed
qed


lemma set_nextPhotosBatch: "set (nextPhotosBatch up n) \<subseteq> set (mediaLibraryPhotos up)"
  by (auto simp: nextPhotosBatch_def slice_def dest: in_set_takeD in_set_dropD)

lemma calculateLoop_events:
  "calculateLoop plat up others n w st = (w', st', r) \<Longrightarrow>
   \<exists>es. events w' = events w @ es \<and>
        set es \<subseteq> resolutionEvents plat (singleImageSize up) (store w)
                    (set (mediaLibraryPhotos up)) \<union> range SetState"
proof (induction plat up others n w st arbitrary: w' st' r rule: calculateLoop.induct)
  case (1 plat up others n w st)
  let ?P = "mediaLibraryPhotos up"
  let ?W = "singleImageSize up"
  let ?b = "generateCachedPhotosBatch plat ?W (nextPhotosBatch up n) w"
  obtain es1 where es1: "events (fst ?b) = events w @ es1"
    "set es1 \<subseteq> resolutionEvents plat ?W (store w) (set (nextPhotosBatch up n))"
    using batch_events by blast
  have sub1: "resolutionEvents plat ?W (store w) (set (nextPhotosBatch up n))
                \<subseteq> resolutionEvents plat ?W (store w) (set ?P)"
    using set_nextPhotosBatch[of up n] by (fastforce simp: resolutionEvents_def)
  show ?case
  proof (cases "n < length ?P")
    case False
    with "1.prems" have "w' = w"
      by (simp add: calculateLoop_done)
    then show ?thesis by simp
  next
    case True
    show ?thesis
    proof (cases "snd ?b")
      case (Inl e)
      with True "1.prems" have "w' = fst ?b"
        by (simp add: calculateLoop_fail)
      with es1 sub1 show ?thesis by auto
    next
      case (Inr cs)
      let ?n1 = "n + length (nextPhotosBatch up n)"
      let ?st1 = "appendBatch up cs (others n st)"
      obtain w1 rs where b: "(w1, rs) = ?b"
        by (cases ?b) simp
      then have w1: "w1 = fst ?b" and rs: "rs = Inr cs"
        using Inr by (simp_all add: b[symmetric])
      let ?w1 = "emit [SetState ?st1] w1"
      have loop: "calculateLoop plat up others ?n1 ?w1 ?st1 = (w', st', r)"
        using True Inr "1.prems" by (simp add: calculateLoop_step w1)
      have "\<exists>es. events w' = events ?w1 @ es \<and>
              set es \<subseteq> resolutionEvents plat ?W (store ?w1) (set ?P) \<union> range SetState"
        by (rule "1.IH"[OF True b rs loop])
      then obtain es2 where es2: "events w' = events ?w1 @ es2"
        "set es2 \<subseteq> resolutionEvents plat ?W (store ?w1) (set ?P) \<union> range SetState"
        by (elim exE conjE)
      have sub2: "resolutionEvents plat ?W (store ?w1) (set ?P)
                    \<subseteq> resolutionEvents plat ?W (store w) (set ?P)"
        by (rule resolutionEvents_mono[where K = "photoKey ?W ` set (nextPhotosBatch up n)"])
           (simp_all add: batch_store w1)
      have "events w' = events w @ (es1 @ SetState ?st1 # es2)"
        using es2(1) es1(1) by (simp add: w1)
      moreover have "set (es1 @ SetState ?st1 # es2)
          \<subseteq> resolutionEvents plat ?W (store w) (set ?P) \<union> range SetState"
        using es1(2) es2(2) sub1 sub2 by auto
      ultimately show ?thesis by blast
    qed
  qed
qed

section \<open>The restore/calculate cycle\<close>

lemmas scenario_defs =
  settledUpstream_def densityTwo_def densityThree_def failingOn_def storeOf_def worldOf_def
  cachedAt_def initialState_def alphabet_def restoredNothing_def
  recalculationMeanwhile_def

lemmas model_defs =
  restoreCalculateCycle_def restorationEffect_def calculationEffect_def
  calculateCachedPhotos_def recalculateCachedPhotos_def clearCache_def
  loadAllPhotosFromCache_def getPhotoFromCache_def List.map_filter_simps emit_def
  nextPhotosBatch_def slice_def PROCESSING_BATCH_SIZE_LIMIT_def generateCachedPhoto_def
  calculateNewCachePhoto_def setPhotoInCache_def appendBatch_def
  calculateLoop.simps generateCachedPhotosBatch.simps Let_def alone_def

text \<open>
  Claim C1, on the code. The store holds entries for A and B at width 100 and the source
  list is [A, B, C]. Restoration yields the two entries and the state RESTORED. The
  calculation pass that follows renders C only, but it appends its whole batch (the hits
  for A and B and the new entry for C) to the two restored entries: the pass ends with
  five entries, and since five is not three, in the state CALCULATING.
\<close>

theorem partial_restoration_appends_duplicates:
  "snd (restorationEffect (settledUpstream 100 [''A'', ''B'', ''C''])
          (worldOf (storeOf 100 [''A'', ''B''])) initialState) =
     \<lparr>cachedPhotos = [cachedAt 100 ''A'' ''A.cached'', cachedAt 100 ''B'' ''B.cached''],
      cachedPhotosLoadingState = RESTORED_FROM_CACHE\<rparr>
   \<and> renderInvocations (events (fst
         (restoreCalculateCycle densityTwo (settledUpstream 100 [''A'', ''B'', ''C'']) alone
            (worldOf (storeOf 100 [''A'', ''B''])) initialState))) = [(''C'', 200)]
   \<and> snd (restoreCalculateCycle densityTwo (settledUpstream 100 [''A'', ''B'', ''C'']) alone
            (worldOf (storeOf 100 [''A'', ''B''])) initialState) =
       (\<lparr>cachedPhotos =
            [cachedAt 100 ''A'' ''A.cached'', cachedAt 100 ''B'' ''B.cached'',
             cachedAt 100 ''A'' ''A.cached'', cachedAt 100 ''B'' ''B.cached'',
             cachedAt 100 ''C'' ''C.jpg''],
          cachedPhotosLoadingState = CALCULATING\<rparr>, None)"
  by (simp add: scenario_defs model_defs)


text \<open>
  Claim C2, on the code. With no photo at all, restoration finds nothing and sets the
  state RESTORED; the loop of the calculation pass is not entered, so the pass publishes
  no state: the cycle ends in RESTORED, running the calculation effect again changes
  nothing, and an accepted recalculation is left in CALCULATING.
\<close>

theorem empty_collection_never_completes:
  "snd (restoreCalculateCycle plat (settledUpstream width []) others w initialState) =
     (\<lparr>cachedPhotos = [], cachedPhotosLoadingState = RESTORED_FROM_CACHE\<rparr>, None)
   \<and> events (fst (restoreCalculateCycle plat (settledUpstream width []) others w initialState)) =
       events w @
       [SetState \<lparr>cachedPhotos = [], cachedPhotosLoadingState = RESTORING_FROM_CACHE\<rparr>,
        SetState \<lparr>cachedPhotos = [], cachedPhotosLoadingState = RESTORED_FROM_CACHE\<rparr>]
   \<and> calculationEffect plat (settledUpstream width []) others w'
       \<lparr>cachedPhotos = [], cachedPhotosLoadingState = RESTORED_FROM_CACHE\<rparr> =
       (w', \<lparr>cachedPhotos = [], cachedPhotosLoadingState = RESTORED_FROM_CACHE\<rparr>, None)
   \<and> snd (recalculateCachedPhotos plat (settledUpstream width []) others w initialState) =
       (\<lparr>cachedPhotos = [], cachedPhotosLoadingState = CALCULATING\<rparr>, None)"
  by (simp add: scenario_defs model_defs)

text \<open>
  Claim C3 as stated fails: the store covers the whole collection [A, B]. Restoration
  sets RESTORING and then COMPLETED, never RESTORED, and no calculation pass follows:
  the cycle publishes these two states and nothing else.
\<close>

theorem full_coverage_skips_restored:
  "snd (restorationEffect (settledUpstream 100 [''A'', ''B''])
          (worldOf (storeOf 100 [''A'', ''B''])) initialState) =
     \<lparr>cachedPhotos = [cachedAt 100 ''A'' ''A.cached'', cachedAt 100 ''B'' ''B.cached''],
      cachedPhotosLoadingState = COMPLETED\<rparr>
   \<and> events (fst (restoreCalculateCycle densityTwo (settledUpstream 100 [''A'', ''B'']) alone
          (worldOf (storeOf 100 [''A'', ''B''])) initialState)) =
     [SetState \<lparr>cachedPhotos = [], cachedPhotosLoadingState = RESTORING_FROM_CACHE\<rparr>,
      SetState \<lparr>cachedPhotos =
                  [cachedAt 100 ''A'' ''A.cached'', cachedAt 100 ''B'' ''B.cached''],
                cachedPhotosLoadingState = COMPLETED\<rparr>]"
  by (simp add: scenario_defs model_defs)

lemma length_map_filter_le: "length (List.map_filter f xs) \<le> length xs"
  by (induction xs) (auto simp: List.map_filter_simps split: option.splits)

lemma length_map_filter_eq:
  "(length (List.map_filter f xs) = length xs) = (\<forall>x \<in> set xs. f x \<noteq> None)"
proof (induction xs)
  case Nil
  then show ?case by (simp add: List.map_filter_simps)
next
  case (Cons x xs)
  have "length (List.map_filter f xs) \<le> length xs"
    by (rule length_map_filter_le)
  with Cons show ?case
    by (auto simp: List.map_filter_simps split: option.splits)
qed

lemma loadAll_full_coverage:
  "(length (loadAllPhotosFromCache photos width s) = length photos) =
   (\<forall>photo \<in> set photos. s (photoKey width photo) \<noteq> None)"
  by (simp add: loadAllPhotosFromCache_def length_map_filter_eq getPhotoFromCache_def
      photoKey_def)

text \<open>
  Claim C3, amended. When the providers are settled and the state is IDLE, the
  restoration effect reads the store only, publishes RESTORING and then its outcome with
  exactly the entries found. The outcome is COMPLETED when the collection is not empty
  and every one of its keys is in the store, and RESTORED otherwise (zero hits and an
  empty collection included). From RESTORED the calculation effect always runs a
  calculation pass; from COMPLETED it runs none.
\<close>

theorem restoration_outcome:
  assumes "galleryUISettingsStateRestorationStatus up \<noteq> RESTORING"
    and "mediaLibraryStateRestorationStatus up \<noteq> RESTORING"
    and "mediaLibraryLoadingState up = ML_COMPLETED"
    and "cachedPhotosLoadingState st = IDLE"
    and "restorationEffect up w st = (w', st')"
  shows "store w' = store w
    \<and> events w' = events w @
          [SetState \<lparr>cachedPhotos = [], cachedPhotosLoadingState = RESTORING_FROM_CACHE\<rparr>,
           SetState st']
    \<and> cachedPhotos st' =
          loadAllPhotosFromCache (mediaLibraryPhotos up) (singleImageSize up) (store w)
    \<and> cachedPhotosLoadingState st' =
          (if mediaLibraryPhotos up \<noteq> []
              \<and> (\<forall>photo \<in> set (mediaLibraryPhotos up).
                     store w (photoKey (singleImageSize up) photo) \<noteq> None)
           then COMPLETED else RESTORED_FROM_CACHE)
    \<and> (cachedPhotosLoadingState st' = RESTORED_FROM_CACHE \<longrightarrow>
          calculationEffect plat up others w' st' = calculateCachedPhotos plat up others w' st')
    \<and> (cachedPhotosLoadingState st' = COMPLETED \<longrightarrow>
          calculationEffect plat up others w' st' = (w', st', None))"
proof -
  let ?found = "loadAllPhotosFromCache (mediaLibraryPhotos up) (singleImageSize up) (store w)"
  let ?st1 = "\<lparr>cachedPhotos = [], cachedPhotosLoadingState = RESTORING_FROM_CACHE\<rparr>"
  have cov: "(length ?found = length (mediaLibraryPhotos up)) =
      (\<forall>photo \<in> set (mediaLibraryPhotos up).
          store w (photoKey (singleImageSize up) photo) \<noteq> None)"
    by (rule loadAll_full_coverage)
  show ?thesis
  proof (cases "?found = []")
    case True
    let ?st2 = "\<lparr>cachedPhotos = [], cachedPhotosLoadingState = RESTORED_FROM_CACHE\<rparr>"
    have "restorationEffect up w st = (emit [SetState ?st2] (emit [SetState ?st1] w), ?st2)"
      using assms(1-4) True by (simp add: restorationEffect_def Let_def)
    then have "w' = emit [SetState ?st2] (emit [SetState ?st1] w)" and "st' = ?st2"
      unfolding assms(5) by blast+
    moreover have "\<not> (mediaLibraryPhotos up \<noteq> []
              \<and> (\<forall>photo \<in> set (mediaLibraryPhotos up).
                     store w (photoKey (singleImageSize up) photo) \<noteq> None))"
      using cov True by auto
    ultimately show ?thesis
      using True by (simp add: calculationEffect_def)
  next
    case False
    let ?st2 = "\<lparr>cachedPhotos = ?found,
                cachedPhotosLoadingState =
                  (if length ?found = length (mediaLibraryPhotos up)
                   then COMPLETED else RESTORED_FROM_CACHE)\<rparr>"
    have "restorationEffect up w st = (emit [SetState ?st2] (emit [SetState ?st1] w), ?st2)"
      using assms(1-4) False by (simp add: restorationEffect_def Let_def)
    then have "w' = emit [SetState ?st2] (emit [SetState ?st1] w)" and "st' = ?st2"
      unfolding assms(5) by blast+
    moreover have "(mediaLibraryPhotos up \<noteq> []
              \<and> (\<forall>photo \<in> set (mediaLibraryPhotos up).
                     store w (photoKey (singleImageSize up) photo) \<noteq> None))
         = (length ?found = length (mediaLibraryPhotos up))"
      using cov False by auto
    ultimately show ?thesis
      by (simp add: calculationEffect_def)
  qed
qed

theorem restoration_outcome_witness:
  "galleryUISettingsStateRestorationStatus (settledUpstream 100 [''A'', ''B'', ''C'']) \<noteq> RESTORING
   \<and> mediaLibraryStateRestorationStatus (settledUpstream 100 [''A'', ''B'', ''C'']) \<noteq> RESTORING
   \<and> mediaLibraryLoadingState (settledUpstream 100 [''A'', ''B'', ''C'']) = ML_COMPLETED
   \<and> cachedPhotosLoadingState initialState = IDLE
   \<and> cachedPhotosLoadingState
        (snd (restorationEffect (settledUpstream 100 [''A'', ''B'', ''C''])
                (worldOf (storeOf 100 [''A'', ''B''])) initialState)) = RESTORED_FROM_CACHE
   \<and> cachedPhotos
        (snd (restorationEffect (settledUpstream 100 [''A'', ''B'', ''C''])
                (worldOf (storeOf 100 [''A'', ''B''])) initialState)) =
       [cachedAt 100 ''A'' ''A.cached'', cachedAt 100 ''B'' ''B.cached'']"
proof -
  let ?up = "settledUpstream 100 [''A'', ''B'', ''C'']"
  let ?w = "worldOf (storeOf 100 [''A'', ''B''])"
  have h1: "galleryUISettingsStateRestorationStatus ?up \<noteq> RESTORING"
    and h2: "mediaLibraryStateRestorationStatus ?up \<noteq> RESTORING"
    and h3: "mediaLibraryLoadingState ?up = ML_COMPLETED"
    and h4: "cachedPhotosLoadingState initialState = IDLE"
    by (simp_all add: scenario_defs)
  have h5: "restorationEffect ?up ?w initialState =
      (fst (restorationEffect ?up ?w initialState), snd (restorationEffect ?up ?w initialState))"
    by simp
  have found: "loadAllPhotosFromCache (mediaLibraryPhotos ?up) (singleImageSize ?up) (store ?w) =
      [cachedAt 100 ''A'' ''A.cached'', cachedAt 100 ''B'' ''B.cached'']"
    by (simp add: scenario_defs loadAllPhotosFromCache_def getPhotoFromCache_def
        List.map_filter_simps)
  have miss: "store ?w (photoKey (singleImageSize ?up) \<lparr>uri = ''C''\<rparr>) = None"
    by (simp add: scenario_defs photoKey_def)
  have "\<not> (\<forall>photo \<in> set (mediaLibraryPhotos ?up).
            store ?w (photoKey (singleImageSize ?up) photo) \<noteq> None)"
    using miss by (simp add: settledUpstream_def)
  then show ?thesis
    using h1 h2 h3 h4 found restoration_outcome[OF h1 h2 h3 h4 h5, of densityTwo]
    by simp
qed

section \<open>Resolutions, recalculation and order\<close>

lemma emitted_append: "events w' = events w @ es \<Longrightarrow> emitted w w' = es"
  by (simp add: emitted_def)

lemma emitted_self [simp]: "emitted w w = []"
  by (simp add: emitted_def)

lemma resolutionEvents_render:
  "RenderInvoke u px \<in> resolutionEvents plat width s photos \<Longrightarrow>
   s \<lparr>originalPhotoUri = u, mipmapWidth = width\<rparr> = None
   \<and> px = getPixelSizeForLayoutSize plat width \<and> u \<in> uri ` photos"
  by (auto simp: resolutionEvents_def photoKey_def)

lemma resolutionEvents_write:
  "StoreWrite k h \<in> resolutionEvents plat width s photos \<Longrightarrow>
   s k = None \<and> k \<in> photoKey width ` photos \<and> resolvedHandle plat s k = Some h"
  by (auto simp: resolutionEvents_def)

lemma resolutionEvents_others [simp]:
  "Warn \<notin> resolutionEvents plat width s photos"
  "StoreClear \<notin> resolutionEvents plat width s photos"
  "SetState st \<notin> resolutionEvents plat width s photos"
  by (auto simp: resolutionEvents_def)

text \<open>
  Claim C7. One resolution of a (source, width) pair. On a hit the world is left as it
  was (no limiter slot, no render, no store write) and the entry of the store is
  returned. On a miss whose render succeeds, what happens is exactly: one limiter slot
  taken, one render, the slot freed, one store write under the key. A render is invoked
  only when the store has no entry for the key; the same holds for every render of a
  whole calculation pass, with respect to the store at the start of the pass.
\<close>

theorem resolution_hit_or_single_write:
  assumes "generateCachedPhoto plat photoUri width w = (w', r)"
  shows "(\<forall>h. store w \<lparr>originalPhotoUri = photoUri, mipmapWidth = width\<rparr> = Some h \<longrightarrow>
            w' = w \<and> emitted w w' = []
            \<and> r = Inr \<lparr>key = \<lparr>originalPhotoUri = photoUri, mipmapWidth = width\<rparr>,
                       renditionHandle = h\<rparr>)
    \<and> (\<forall>resultUri.
          store w \<lparr>originalPhotoUri = photoUri, mipmapWidth = width\<rparr> = None
          \<and> renderAsync plat photoUri (getPixelSizeForLayoutSize plat width) = Inr resultUri \<longrightarrow>
            emitted w w' =
              [LimiterAcquire,
               RenderInvoke photoUri (getPixelSizeForLayoutSize plat width),
               LimiterRelease,
               StoreWrite \<lparr>originalPhotoUri = photoUri, mipmapWidth = width\<rparr> resultUri]
            \<and> store w' =
                (store w)(\<lparr>originalPhotoUri = photoUri, mipmapWidth = width\<rparr> \<mapsto> resultUri)
            \<and> r = Inr \<lparr>key = \<lparr>originalPhotoUri = photoUri, mipmapWidth = width\<rparr>,
                       renditionHandle = resultUri\<rparr>)
    \<and> (\<forall>u px. RenderInvoke u px \<in> set (emitted w w') \<longrightarrow>
          store w \<lparr>originalPhotoUri = u, mipmapWidth = width\<rparr> = None)
    \<and> (\<forall>up others st w'' st'' r'' u px.
          calculateCachedPhotos plat up others w st = (w'', st'', r'')
          \<and> RenderInvoke u px \<in> set (emitted w w'') \<longrightarrow>
            store w \<lparr>originalPhotoUri = u, mipmapWidth = singleImageSize up\<rparr> = None)"
proof (intro conjI allI impI)
  fix h
  assume "store w \<lparr>originalPhotoUri = photoUri, mipmapWidth = width\<rparr> = Some h"
  then have "generateCachedPhoto plat photoUri width w =
      (w, Inr \<lparr>key = \<lparr>originalPhotoUri = photoUri, mipmapWidth = width\<rparr>, renditionHandle = h\<rparr>)"
    by (rule generateCachedPhoto_hit)
  with assms show "w' = w" "emitted w w' = []"
    "r = Inr \<lparr>key = \<lparr>originalPhotoUri = photoUri, mipmapWidth = width\<rparr>, renditionHandle = h\<rparr>"
    by simp_all
next
  fix resultUri
  assume a: "store w \<lparr>originalPhotoUri = photoUri, mipmapWidth = width\<rparr> = None
          \<and> renderAsync plat photoUri (getPixelSizeForLayoutSize plat width) = Inr resultUri"
  from generateCachedPhoto_miss_ok[of w photoUri width plat resultUri] a assms
  have w': "w' = w\<lparr>store := (store w)(\<lparr>originalPhotoUri = photoUri, mipmapWidth = width\<rparr> \<mapsto> resultUri),
        events := events w @
          [LimiterAcquire, RenderInvoke photoUri (getPixelSizeForLayoutSize plat width), LimiterRelease,
           StoreWrite \<lparr>originalPhotoUri = photoUri, mipmapWidth = width\<rparr> resultUri]\<rparr>"
    and r: "r = Inr \<lparr>key = \<lparr>originalPhotoUri = photoUri, mipmapWidth = width\<rparr>, renditionHandle = resultUri\<rparr>"
    by simp_all
  show "emitted w w' =
              [LimiterAcquire,
               RenderInvoke photoUri (getPixelSizeForLayoutSize plat width),
               LimiterRelease,
               StoreWrite \<lparr>originalPhotoUri = photoUri, mipmapWidth = width\<rparr> resultUri]"
    by (rule emitted_append) (simp add: w')
  show "store w' = (store w)(\<lparr>originalPhotoUri = photoUri, mipmapWidth = width\<rparr> \<mapsto> resultUri)"
    by (simp add: w')
  show "r = Inr \<lparr>key = \<lparr>originalPhotoUri = photoUri, mipmapWidth = width\<rparr>, renditionHandle = resultUri\<rparr>"
    by (rule r)
next
  fix u px
  assume a: "RenderInvoke u px \<in> set (emitted w w')"
  obtain es where es: "events (fst (generateCachedPhoto plat (uri \<lparr>uri = photoUri\<rparr>) width w)) = events w @ es"
    "set es \<subseteq> resolutionEvents plat width (store w) {\<lparr>uri = photoUri\<rparr>}"
    using generateCachedPhoto_events by blast
  from es(1) assms have "emitted w w' = es" by (simp add: emitted_append)
  with a es(2) have "RenderInvoke u px \<in> resolutionEvents plat width (store w) {\<lparr>uri = photoUri\<rparr>}"
    by auto
  then show "store w \<lparr>originalPhotoUri = u, mipmapWidth = width\<rparr> = None"
    by (simp add: resolutionEvents_render)
next
  fix up others st w'' st'' r'' u px
  assume a: "calculateCachedPhotos plat up others w st = (w'', st'', r'')
          \<and> RenderInvoke u px \<in> set (emitted w w'')"
  then obtain es where es: "events w'' = events w @ es"
    "set es \<subseteq> resolutionEvents plat (singleImageSize up) (store w)
                    (set (mediaLibraryPhotos up)) \<union> range SetState"
    using calculateLoop_events[of plat up others 0 w st w'' st'' r'']
    by (auto simp: calculateCachedPhotos_def)
  from es(1) have "emitted w w'' = es" by (rule emitted_append)
  with a es(2) have "RenderInvoke u px \<in> resolutionEvents plat (singleImageSize up) (store w)
                    (set (mediaLibraryPhotos up))"
    by auto
  then show "store w \<lparr>originalPhotoUri = u, mipmapWidth = singleImageSize up\<rparr> = None"
    by (simp add: resolutionEvents_render)
qed



lemma generateCachedPhoto_emitted:
  assumes "generateCachedPhoto plat photoUri width w = (w', r)"
  shows "set (emitted w w') \<subseteq> resolutionEvents plat width (store w) {\<lparr>uri = photoUri\<rparr>}"
proof -
  obtain es where es: "events (fst (generateCachedPhoto plat (uri \<lparr>uri = photoUri\<rparr>) width w)) = events w @ es"
    "set es \<subseteq> resolutionEvents plat width (store w) {\<lparr>uri = photoUri\<rparr>}"
    using generateCachedPhoto_events by blast
  from es(1) assms have "emitted w w' = es" by (simp add: emitted_append)
  with es(2) show ?thesis by simp
qed

text \<open>
  Claim C8. The same source and logical width resolved on two devices (any two pixel
  densities, any two render primitives), from the same store: both look up and write the
  one key made of the source and the logical width, no other key of the store changes,
  and the resulting entries carry that key. The density decides nothing but the pixel
  width handed to the render primitive.
\<close>

theorem cache_key_ignores_pixel_density:
  assumes "generateCachedPhoto plat1 photoUri width w = (w1, r1)"
    and "generateCachedPhoto plat2 photoUri width w = (w2, r2)"
  shows "(\<forall>c1 c2. r1 = Inr c1 \<and> r2 = Inr c2 \<longrightarrow>
            key c1 = key c2
            \<and> key c1 = \<lparr>originalPhotoUri = photoUri, mipmapWidth = width\<rparr>)
    \<and> (\<forall>k. k \<noteq> \<lparr>originalPhotoUri = photoUri, mipmapWidth = width\<rparr> \<longrightarrow>
            store w1 k = store w k \<and> store w2 k = store w k)
    \<and> (\<forall>k h. StoreWrite k h \<in> set (emitted w w1) \<union> set (emitted w w2) \<longrightarrow>
            k = \<lparr>originalPhotoUri = photoUri, mipmapWidth = width\<rparr>)
    \<and> (\<forall>u px. RenderInvoke u px \<in> set (emitted w w1) \<longrightarrow>
            px = getPixelSizeForLayoutSize plat1 width)
    \<and> (\<forall>u px. RenderInvoke u px \<in> set (emitted w w2) \<longrightarrow>
            px = getPixelSizeForLayoutSize plat2 width)"
proof -
  let ?k = "\<lparr>originalPhotoUri = photoUri, mipmapWidth = width\<rparr>"
  have w1: "w1 = fst (generateCachedPhoto plat1 photoUri width w)"
    and r1: "r1 = snd (generateCachedPhoto plat1 photoUri width w)"
    and w2: "w2 = fst (generateCachedPhoto plat2 photoUri width w)"
    and r2: "r2 = snd (generateCachedPhoto plat2 photoUri width w)"
    using assms by simp_all
  have keys: "\<forall>c1 c2. r1 = Inr c1 \<and> r2 = Inr c2 \<longrightarrow> key c1 = key c2 \<and> key c1 = ?k"
    unfolding r1 r2 generateCachedPhoto_ok_iff
    by (auto simp: resolvedEntry_def)
  have frame: "\<forall>k. k \<noteq> ?k \<longrightarrow> store w1 k = store w k \<and> store w2 k = store w k"
    unfolding w1 w2 by (simp add: generateCachedPhoto_store)
  have e1: "set (emitted w w1) \<subseteq> resolutionEvents plat1 width (store w) {\<lparr>uri = photoUri\<rparr>}"
    by (rule generateCachedPhoto_emitted[OF assms(1)])
  have e2: "set (emitted w w2) \<subseteq> resolutionEvents plat2 width (store w) {\<lparr>uri = photoUri\<rparr>}"
    by (rule generateCachedPhoto_emitted[OF assms(2)])
  have writes: "\<forall>k h. StoreWrite k h \<in> set (emitted w w1) \<union> set (emitted w w2) \<longrightarrow> k = ?k"
  proof (intro allI impI)
    fix k h
    assume "StoreWrite k h \<in> set (emitted w w1) \<union> set (emitted w w2)"
    with e1 e2 have "StoreWrite k h \<in> resolutionEvents plat1 width (store w) {\<lparr>uri = photoUri\<rparr>}
        \<or> StoreWrite k h \<in> resolutionEvents plat2 width (store w) {\<lparr>uri = photoUri\<rparr>}"
      by blast
    then have "k \<in> photoKey width ` {\<lparr>uri = photoUri\<rparr>}"
      using resolutionEvents_write by blast
    then show "k = ?k"
      by (simp add: photoKey_def)
  qed
  have px1: "\<forall>u px. RenderInvoke u px \<in> set (emitted w w1) \<longrightarrow>
            px = getPixelSizeForLayoutSize plat1 width"
    using e1 resolutionEvents_render by blast
  have px2: "\<forall>u px. RenderInvoke u px \<in> set (emitted w w2) \<longrightarrow>
            px = getPixelSizeForLayoutSize plat2 width"
    using e2 resolutionEvents_render by blast
  show ?thesis
    by (intro conjI keys frame writes px1 px2)
qed

lemma calculateCachedPhotos_emitted:
  assumes "calculateCachedPhotos plat up others w st = (w', st', r)"
  shows "events w' = events w @ emitted w w'"
    and "set (emitted w w') \<subseteq>
           resolutionEvents plat (singleImageSize up) (store w) (set (mediaLibraryPhotos up))
           \<union> range SetState"
proof -
  obtain es where es: "events w' = events w @ es"
    "set es \<subseteq> resolutionEvents plat (singleImageSize up) (store w)
                    (set (mediaLibraryPhotos up)) \<union> range SetState"
    using calculateLoop_events[of plat up others 0 w st w' st' r] assms
    by (auto simp: calculateCachedPhotos_def)
  from es(1) have "emitted w w' = es" by (rule emitted_append)
  with es show "events w' = events w @ emitted w w'"
    and "set (emitted w w') \<subseteq>
           resolutionEvents plat (singleImageSize up) (store w) (set (mediaLibraryPhotos up))
           \<union> range SetState"
    by simp_all
qed

text \<open>
  Claim C5. A recalculation request in the state RESTORING or CALCULATING only warns:
  the store, the state and the accumulated entries are as before. In the states IDLE,
  RESTORED and COMPLETED it is accepted: the store is cleared, the state set to
  CALCULATING with no entries, a calculation pass runs, and no warning is given.
\<close>

theorem recalculation_rejected_while_busy:
  assumes "recalculateCachedPhotos plat up others w st = (w', st', r)"
  shows "(cachedPhotosLoadingState st = RESTORING_FROM_CACHE
            \<or> cachedPhotosLoadingState st = CALCULATING \<longrightarrow>
            events w' = events w @ [Warn] \<and> store w' = store w \<and> st' = st \<and> r = None)
    \<and> (cachedPhotosLoadingState st = IDLE
            \<or> cachedPhotosLoadingState st = RESTORED_FROM_CACHE
            \<or> cachedPhotosLoadingState st = COMPLETED \<longrightarrow>
            (\<exists>es. events w' = events w @
                    StoreClear
                    # SetState \<lparr>cachedPhotos = [], cachedPhotosLoadingState = CALCULATING\<rparr>
                    # es
                  \<and> Warn \<notin> set es)
            \<and> (w', st', r) =
                calculateCachedPhotos plat up others
                  \<lparr>store = Map.empty,
                   events = events w @
                     [StoreClear,
                      SetState \<lparr>cachedPhotos = [], cachedPhotosLoadingState = CALCULATING\<rparr>]\<rparr>
                  \<lparr>cachedPhotos = [], cachedPhotosLoadingState = CALCULATING\<rparr>)"
proof (intro conjI impI)
  assume "cachedPhotosLoadingState st = RESTORING_FROM_CACHE
            \<or> cachedPhotosLoadingState st = CALCULATING"
  then have "recalculateCachedPhotos plat up others w st = (emit [Warn] w, st, None)"
    by (auto simp: recalculateCachedPhotos_def)
  then show "events w' = events w @ [Warn]" "store w' = store w" "st' = st" "r = None"
    unfolding assms by simp_all
next
  let ?st1 = "\<lparr>cachedPhotos = [], cachedPhotosLoadingState = CALCULATING\<rparr>"
  let ?w1 = "\<lparr>store = Map.empty, events = events w @ [StoreClear, SetState ?st1]\<rparr>"
  assume idle: "cachedPhotosLoadingState st = IDLE
            \<or> cachedPhotosLoadingState st = RESTORED_FROM_CACHE
            \<or> cachedPhotosLoadingState st = COMPLETED"
  have w1: "emit [SetState ?st1] (clearCache w) = ?w1"
    by (simp add: emit_def clearCache_def)
  from idle have "recalculateCachedPhotos plat up others w st = calculateCachedPhotos plat up others ?w1 ?st1"
    by (auto simp: recalculateCachedPhotos_def Let_def w1)
  then have pass: "calculateCachedPhotos plat up others ?w1 ?st1 = (w', st', r)"
    unfolding assms by simp
  then show "(w', st', r) = calculateCachedPhotos plat up others ?w1 ?st1"
    by simp
  note em = calculateCachedPhotos_emitted[OF pass]
  have "events w' = events ?w1 @ emitted ?w1 w'"
    by (rule em(1))
  then have "events w' = events w @ StoreClear # SetState ?st1 # emitted ?w1 w'"
    by simp
  moreover have "Warn \<notin> set (emitted ?w1 w')"
  proof
    assume "Warn \<in> set (emitted ?w1 w')"
    with em(2) have "Warn \<in> resolutionEvents plat (singleImageSize up) (store ?w1)
        (set (mediaLibraryPhotos up)) \<union> range SetState"
      by blast
    then show False
      by (simp add: image_iff)
  qed
  ultimately show "\<exists>es. events w' = events w @ StoreClear # SetState ?st1 # es \<and> Warn \<notin> set es"
    by blast
qed


lemma slice_from_0 [simp]: "slice xs 0 m = take m xs"
  by (simp add: slice_def)





section \<open>A failed render, and the clearing of the store\<close>

text \<open>
  Claim C4 as stated fails: twenty-six photos, the render of the first one fails. The
  pass rejects with that failure at the first batch. The state and the accumulated list
  are what they were: the entry of b, resolved and persisted in the same batch, is never
  published. The second batch is never started: z is neither rendered nor persisted.
\<close>

theorem failed_render_halts_pass:
  "snd (calculateCachedPhotos (failingOn ''a'') (settledUpstream 100 alphabet) alone
          (worldOf Map.empty) restoredNothing) =
     (restoredNothing, Some (RenderError ''a''))
   \<and> store (fst (calculateCachedPhotos (failingOn ''a'') (settledUpstream 100 alphabet) alone
          (worldOf Map.empty) restoredNothing))
        \<lparr>originalPhotoUri = ''b'', mipmapWidth = 100\<rparr> = Some ''b.jpg''
   \<and> store (fst (calculateCachedPhotos (failingOn ''a'') (settledUpstream 100 alphabet) alone
          (worldOf Map.empty) restoredNothing))
        \<lparr>originalPhotoUri = ''z'', mipmapWidth = 100\<rparr> = None
   \<and> (''z'', 200) \<notin> set (renderInvocations (events (fst
          (calculateCachedPhotos (failingOn ''a'') (settledUpstream 100 alphabet) alone
             (worldOf Map.empty) restoredNothing))))"
  by (simp add: scenario_defs model_defs)


text \<open>
  Claim C4, amended. When the render of a photo of a batch fails, no entry is written
  for its key, and the other photos of that batch are still resolved and persisted; but
  the join of the batch rejects: the pass ends there with an error and sets no state for
  the batch (the state and the accumulated list are what other code made of them
  meanwhile: for a pass that runs alone, what they were before the batch), and nothing
  outside the batch is rendered or written.
\<close>

theorem render_failure_rejects_whole_batch:
  assumes "n < length (mediaLibraryPhotos up)"
    and "photo \<in> set (nextPhotosBatch up n)"
    and "store w (photoKey (singleImageSize up) photo) = None"
    and "renderAsync plat (uri photo) (getPixelSizeForLayoutSize plat (singleImageSize up)) = Inl e"
    and "calculateLoop plat up others n w st = (w', st', r)"
  shows "r \<noteq> None \<and> st' = others n st \<and> (others = alone \<longrightarrow> st' = st)
    \<and> store w' (photoKey (singleImageSize up) photo) = None
    \<and> (\<forall>k. store w' k =
          (if k \<in> photoKey (singleImageSize up) ` set (nextPhotosBatch up n)
           then resolvedHandle plat (store w) k else store w k))
    \<and> (\<forall>s. SetState s \<notin> set (emitted w w'))
    \<and> (\<forall>u px. RenderInvoke u px \<in> set (emitted w w') \<longrightarrow>
          u \<in> uri ` set (nextPhotosBatch up n))"
proof -
  let ?W = "singleImageSize up"
  let ?b = "generateCachedPhotosBatch plat ?W (nextPhotosBatch up n) w"
  have unresolved: "resolvedHandle plat (store w) (photoKey ?W photo) = None"
    using assms(3,4) by (simp add: resolvedHandle_def photoKey_def)
  with assms(2) have "\<exists>e'. snd ?b = Inl e'"
    unfolding batch_fail_iff by blast
  then obtain e' where e': "snd ?b = Inl e'" ..
  have "calculateLoop plat up others n w st = (fst ?b, others n st, Some e')"
    by (rule calculateLoop_fail[OF assms(1) e'])
  with assms(5) have w': "w' = fst ?b" and st': "st' = others n st" and r: "r = Some e'"
    by simp_all
  have sto: "\<forall>k. store w' k =
          (if k \<in> photoKey ?W ` set (nextPhotosBatch up n)
           then resolvedHandle plat (store w) k else store w k)"
    by (simp add: w' batch_store)
  have key: "store w' (photoKey ?W photo) = None"
    using sto assms(2) unresolved by simp
  obtain es where es: "events (fst ?b) = events w @ es"
    "set es \<subseteq> resolutionEvents plat ?W (store w) (set (nextPhotosBatch up n))"
    using batch_events by blast
  have em: "emitted w w' = es"
    using es(1) by (simp add: w' emitted_append)
  have pub: "\<forall>s. SetState s \<notin> set (emitted w w')"
    unfolding em using es(2) resolutionEvents_others(3) by blast
  have ren: "\<forall>u px. RenderInvoke u px \<in> set (emitted w w') \<longrightarrow>
          u \<in> uri ` set (nextPhotosBatch up n)"
    unfolding em using es(2) resolutionEvents_render by blast
  have r': "r \<noteq> None" using r by simp
  have own: "others = alone \<longrightarrow> st' = st"
    by (simp add: st' alone_def)
  show ?thesis
    by (intro conjI r' st' own key sto pub ren)
qed

text \<open>
  Claim C6. An accepted recalculation first clears the store and then sets the state to
  CALCULATING with no entries, and never clears again. Whatever the store holds when the
  pass is over was rendered anew for a photo of the collection at the current width: in
  particular every entry of another width is gone. When no other code sets the state
  meanwhile, the accumulated list holds what the pass resolved from the empty store, and
  nothing older.
\<close>

theorem recalculation_clears_whole_store:
  assumes "cachedPhotosLoadingState st \<noteq> CALCULATING"
    and "cachedPhotosLoadingState st \<noteq> RESTORING_FROM_CACHE"
    and "recalculateCachedPhotos plat up others w st = (w', st', r)"
  shows "(\<exists>es. events w' = events w @
                 StoreClear
                 # SetState \<lparr>cachedPhotos = [], cachedPhotosLoadingState = CALCULATING\<rparr>
                 # es
               \<and> StoreClear \<notin> set es)
    \<and> (\<forall>k. store w' k = None
              \<or> (k \<in> photoKey (singleImageSize up) ` set (mediaLibraryPhotos up)
                  \<and> store w' k = resolvedHandle plat Map.empty k))
    \<and> (\<forall>k. mipmapWidth k \<noteq> singleImageSize up \<longrightarrow> store w' k = None)
    \<and> (others = alone \<longrightarrow>
          (\<exists>m \<le> length (mediaLibraryPhotos up).
             map Some (cachedPhotos st') =
               map (resolvedEntry plat Map.empty \<circ> photoKey (singleImageSize up))
                 (take m (mediaLibraryPhotos up))))"
proof -
  let ?P = "mediaLibraryPhotos up"
  let ?W = "singleImageSize up"
  let ?st1 = "\<lparr>cachedPhotos = [], cachedPhotosLoadingState = CALCULATING\<rparr>"
  let ?w1 = "\<lparr>store = Map.empty, events = events w @ [StoreClear, SetState ?st1]\<rparr>"
  have w1: "emit [SetState ?st1] (clearCache w) = ?w1"
    by (simp add: emit_def clearCache_def)
  have "recalculateCachedPhotos plat up others w st = calculateCachedPhotos plat up others ?w1 ?st1"
    using assms(1,2) by (simp add: recalculateCachedPhotos_def Let_def w1)
  then have pass: "calculateCachedPhotos plat up others ?w1 ?st1 = (w', st', r)"
    unfolding assms(3) by simp
  then have loop: "calculateLoop plat up others 0 ?w1 ?st1 = (w', st', r)"
    by (simp add: calculateCachedPhotos_def)
  note em = calculateCachedPhotos_emitted[OF pass]
  have "events w' = events ?w1 @ emitted ?w1 w'"
    by (rule em(1))
  then have ev: "events w' = events w @ StoreClear # SetState ?st1 # emitted ?w1 w'"
    by simp
  have "StoreClear \<notin> set (emitted ?w1 w')"
  proof
    assume "StoreClear \<in> set (emitted ?w1 w')"
    with em(2) have "StoreClear \<in> resolutionEvents plat ?W (store ?w1) (set ?P) \<union> range SetState"
      by blast
    then show False
      by (simp add: image_iff)
  qed
  with ev have c1: "\<exists>es. events w' = events w @ StoreClear # SetState ?st1 # es
               \<and> StoreClear \<notin> set es"
    by blast
  from calculateLoop_outcome[OF loop] obtain m where
    m: "m \<le> length ?P \<or> m = 0" and
    cps: "others = alone \<longrightarrow> map Some (cachedPhotos st') =
       map Some (cachedPhotos ?st1) @
       map (resolvedEntry plat (store ?w1) \<circ> photoKey ?W) (slice ?P 0 m)" and
    sto: "\<forall>k. store w' k =
        (if k \<in> photoKey ?W ` set (slice ?P 0 (if r = None then m else m + PROCESSING_BATCH_SIZE_LIMIT))
         then resolvedHandle plat (store ?w1) k else store ?w1 k)"
    by (elim exE conjE)
  have sub: "\<And>j. photoKey ?W ` set (slice ?P 0 j) \<subseteq> photoKey ?W ` set ?P"
    by (auto dest: in_set_takeD)
  have c2: "\<forall>k. store w' k = None
              \<or> (k \<in> photoKey ?W ` set ?P \<and> store w' k = resolvedHandle plat Map.empty k)"
  proof
    fix k
    show "store w' k = None
              \<or> (k \<in> photoKey ?W ` set ?P \<and> store w' k = resolvedHandle plat Map.empty k)"
      using sto[rule_format, of k] sub by (auto split: if_splits)
  qed
  have c3: "\<forall>k. mipmapWidth k \<noteq> ?W \<longrightarrow> store w' k = None"
  proof (intro allI impI)
    fix k :: CacheKey
    assume "mipmapWidth k \<noteq> ?W"
    then have "k \<notin> photoKey ?W ` set ?P"
      by (auto simp: photoKey_def)
    with c2 show "store w' k = None" by blast
  qed
  have m': "m \<le> length ?P" using m by auto
  have c4: "others = alone \<longrightarrow>
          (\<exists>m \<le> length ?P.
             map Some (cachedPhotos st') =
               map (resolvedEntry plat Map.empty \<circ> photoKey ?W) (take m ?P))"
  proof
    assume "others = alone"
    with cps have "map Some (cachedPhotos st') =
            map (resolvedEntry plat Map.empty \<circ> photoKey ?W) (take m ?P)"
      by simp
    with m' show "\<exists>m \<le> length ?P.
             map Some (cachedPhotos st') =
               map (resolvedEntry plat Map.empty \<circ> photoKey ?W) (take m ?P)"
      by blast
  qed
  show ?thesis
    by (intro conjI c1 c2 c3 c4)
qed


theorem render_failure_rejects_whole_batch_witness:
  "0 < length (mediaLibraryPhotos (settledUpstream 100 [''a'', ''b'']))
   \<and> \<lparr>uri = ''a''\<rparr> \<in> set (nextPhotosBatch (settledUpstream 100 [''a'', ''b'']) 0)
   \<and> store (worldOf Map.empty)
        (photoKey (singleImageSize (settledUpstream 100 [''a'', ''b''])) \<lparr>uri = ''a''\<rparr>) = None
   \<and> renderAsync (failingOn ''a'') (uri \<lparr>uri = ''a''\<rparr>)
        (getPixelSizeForLayoutSize (failingOn ''a'')
           (singleImageSize (settledUpstream 100 [''a'', ''b'']))) = Inl (RenderError ''a'')
   \<and> snd (snd (calculateLoop (failingOn ''a'') (settledUpstream 100 [''a'', ''b'']) alone 0
                  (worldOf Map.empty) restoredNothing)) \<noteq> None
   \<and> fst (snd (calculateLoop (failingOn ''a'') (settledUpstream 100 [''a'', ''b'']) alone 0
                  (worldOf Map.empty) restoredNothing)) = restoredNothing
   \<and> store (fst (calculateLoop (failingOn ''a'') (settledUpstream 100 [''a'', ''b'']) alone 0
                  (worldOf Map.empty) restoredNothing))
        (photoKey (singleImageSize (settledUpstream 100 [''a'', ''b''])) \<lparr>uri = ''a''\<rparr>) = None"
proof -
  let ?up = "settledUpstream 100 [''a'', ''b'']"
  let ?X = "calculateLoop (failingOn ''a'') ?up alone 0 (worldOf Map.empty) restoredNothing"
  have h1: "0 < length (mediaLibraryPhotos ?up)"
    by (simp add: settledUpstream_def)
  have h2: "\<lparr>uri = ''a''\<rparr> \<in> set (nextPhotosBatch ?up 0)"
    by (simp add: settledUpstream_def nextPhotosBatch_def slice_def PROCESSING_BATCH_SIZE_LIMIT_def)
  have h3: "store (worldOf Map.empty) (photoKey (singleImageSize ?up) \<lparr>uri = ''a''\<rparr>) = None"
    by (simp add: worldOf_def)
  have h4: "renderAsync (failingOn ''a'') (uri \<lparr>uri = ''a''\<rparr>)
        (getPixelSizeForLayoutSize (failingOn ''a'') (singleImageSize ?up)) = Inl (RenderError ''a'')"
    by (simp add: failingOn_def)
  have h5: "?X = (fst ?X, fst (snd ?X), snd (snd ?X))"
    by simp
  note t = render_failure_rejects_whole_batch[OF h1 h2 h3 h4 h5]
  have c1: "snd (snd ?X) \<noteq> None"
    by (rule t[THEN conjunct1])
  have c2: "fst (snd ?X) = restoredNothing"
    by (rule t[THEN conjunct2, THEN conjunct2, THEN conjunct1, rule_format, OF refl])
  have c3: "store (fst ?X) (photoKey (singleImageSize ?up) \<lparr>uri = ''a''\<rparr>) = None"
    by (rule t[THEN conjunct2, THEN conjunct2, THEN conjunct2, THEN conjunct1])
  show ?thesis
    by (intro conjI h1 h2 h3 h4 c1 c2 c3)
qed

theorem recalculation_clears_whole_store_witness:
  "cachedPhotosLoadingState \<lparr>cachedPhotos = [], cachedPhotosLoadingState = COMPLETED\<rparr>
     \<noteq> CALCULATING
   \<and> cachedPhotosLoadingState \<lparr>cachedPhotos = [], cachedPhotosLoadingState = COMPLETED\<rparr>
     \<noteq> RESTORING_FROM_CACHE
   \<and> store (worldOf (storeOf 50 [''A''])) \<lparr>originalPhotoUri = ''A'', mipmapWidth = 50\<rparr>
     = Some ''A.cached''
   \<and> store (fst (recalculateCachedPhotos densityTwo (settledUpstream 100 [''A'']) alone
                  (worldOf (storeOf 50 [''A'']))
                  \<lparr>cachedPhotos = [], cachedPhotosLoadingState = COMPLETED\<rparr>))
        \<lparr>originalPhotoUri = ''A'', mipmapWidth = 50\<rparr> = None"
proof -
  let ?st = "\<lparr>cachedPhotos = [], cachedPhotosLoadingState = COMPLETED\<rparr>"
  let ?up = "settledUpstream 100 [''A'']"
  let ?X = "recalculateCachedPhotos densityTwo ?up alone (worldOf (storeOf 50 [''A''])) ?st"
  have h1: "cachedPhotosLoadingState ?st \<noteq> CALCULATING"
    and h2: "cachedPhotosLoadingState ?st \<noteq> RESTORING_FROM_CACHE"
    by simp_all
  have h3: "?X = (fst ?X, fst (snd ?X), snd (snd ?X))"
    by simp
  have before: "store (worldOf (storeOf 50 [''A''])) \<lparr>originalPhotoUri = ''A'', mipmapWidth = 50\<rparr>
     = Some ''A.cached''"
    by (simp add: worldOf_def storeOf_def)
  have other: "mipmapWidth \<lparr>originalPhotoUri = ''A'', mipmapWidth = 50\<rparr> \<noteq> singleImageSize ?up"
    by (simp add: settledUpstream_def)
  from recalculation_clears_whole_store[OF h1 h2 h3]
  have "\<forall>k. mipmapWidth k \<noteq> singleImageSize ?up \<longrightarrow> store (fst ?X) k = None"
    by (elim conjE)
  with other have "store (fst ?X) \<lparr>originalPhotoUri = ''A'', mipmapWidth = 50\<rparr> = None"
    by blast
  with h1 h2 before show ?thesis
    by blast
qed

section \<open>The theorems at concrete inputs\<close>

theorem resolution_hit_or_single_write_witness:
  "store (worldOf (storeOf 100 [''A'', ''B''])) \<lparr>originalPhotoUri = ''A'', mipmapWidth = 100\<rparr>
     = Some ''A.cached''
   \<and> fst (generateCachedPhoto densityTwo ''A'' 100 (worldOf (storeOf 100 [''A'', ''B''])))
     = worldOf (storeOf 100 [''A'', ''B''])
   \<and> snd (generateCachedPhoto densityTwo ''A'' 100 (worldOf (storeOf 100 [''A'', ''B''])))
     = Inr (cachedAt 100 ''A'' ''A.cached'')
   \<and> store (worldOf (storeOf 100 [''A'', ''B''])) \<lparr>originalPhotoUri = ''C'', mipmapWidth = 100\<rparr>
     = None
   \<and> renderAsync densityTwo ''C'' (getPixelSizeForLayoutSize densityTwo 100) = Inr ''C.jpg''
   \<and> emitted (worldOf (storeOf 100 [''A'', ''B'']))
        (fst (generateCachedPhoto densityTwo ''C'' 100 (worldOf (storeOf 100 [''A'', ''B'']))))
     = [LimiterAcquire, RenderInvoke ''C'' 200, LimiterRelease,
        StoreWrite \<lparr>originalPhotoUri = ''C'', mipmapWidth = 100\<rparr> ''C.jpg'']"
proof -
  let ?w = "worldOf (storeOf 100 [''A'', ''B''])"
  let ?A = "generateCachedPhoto densityTwo ''A'' 100 ?w"
  let ?C = "generateCachedPhoto densityTwo ''C'' 100 ?w"
  have hA: "?A = (fst ?A, snd ?A)" and hC: "?C = (fst ?C, snd ?C)"
    by simp_all
  have hit: "store ?w \<lparr>originalPhotoUri = ''A'', mipmapWidth = 100\<rparr> = Some ''A.cached''"
    by (simp add: worldOf_def storeOf_def)
  have miss: "store ?w \<lparr>originalPhotoUri = ''C'', mipmapWidth = 100\<rparr> = None"
    by (simp add: worldOf_def storeOf_def)
  have ok: "renderAsync densityTwo ''C'' (getPixelSizeForLayoutSize densityTwo 100) = Inr ''C.jpg''"
    by (simp add: densityTwo_def)
  have px: "getPixelSizeForLayoutSize densityTwo 100 = 200"
    by (simp add: densityTwo_def)
  from resolution_hit_or_single_write[OF hA] hit
  have a: "fst ?A = ?w" "snd ?A = Inr (cachedAt 100 ''A'' ''A.cached'')"
    by (simp_all add: cachedAt_def)
  from resolution_hit_or_single_write[OF hC] miss ok
  have c: "emitted ?w (fst ?C) =
      [LimiterAcquire, RenderInvoke ''C'' (getPixelSizeForLayoutSize densityTwo 100), LimiterRelease,
       StoreWrite \<lparr>originalPhotoUri = ''C'', mipmapWidth = 100\<rparr> ''C.jpg'']"
    by blast
  show ?thesis
    using hit miss ok a c by (simp add: px)
qed


theorem cache_key_ignores_pixel_density_witness:
  "getPixelSizeForLayoutSize densityTwo 100 \<noteq> getPixelSizeForLayoutSize densityThree 100
   \<and> snd (generateCachedPhoto densityTwo ''C'' 100 (worldOf (storeOf 100 [''A''])))
       = Inr (cachedAt 100 ''C'' ''C.jpg'')
   \<and> snd (generateCachedPhoto densityThree ''C'' 100 (worldOf (storeOf 100 [''A''])))
       = Inr (cachedAt 100 ''C'' ''C.jpg'')
   \<and> key (cachedAt 100 ''C'' ''C.jpg'') = \<lparr>originalPhotoUri = ''C'', mipmapWidth = 100\<rparr>
   \<and> store (fst (generateCachedPhoto densityThree ''C'' 100 (worldOf (storeOf 100 [''A'']))))
         \<lparr>originalPhotoUri = ''A'', mipmapWidth = 100\<rparr>
       = store (worldOf (storeOf 100 [''A''])) \<lparr>originalPhotoUri = ''A'', mipmapWidth = 100\<rparr>"
proof -
  let ?w = "worldOf (storeOf 100 [''A''])"
  let ?X = "generateCachedPhoto densityTwo ''C'' 100 ?w"
  let ?Y = "generateCachedPhoto densityThree ''C'' 100 ?w"
  have hX: "?X = (fst ?X, snd ?X)" and hY: "?Y = (fst ?Y, snd ?Y)"
    by simp_all
  have px: "getPixelSizeForLayoutSize densityTwo 100 \<noteq> getPixelSizeForLayoutSize densityThree 100"
    by (simp add: densityTwo_def densityThree_def)
  have rX: "snd ?X = Inr (cachedAt 100 ''C'' ''C.jpg'')"
    by (simp add: scenario_defs model_defs)
  have rY: "snd ?Y = Inr (cachedAt 100 ''C'' ''C.jpg'')"
    by (simp add: scenario_defs model_defs)
  have other: "\<lparr>originalPhotoUri = ''A'', mipmapWidth = 100\<rparr>
      \<noteq> \<lparr>originalPhotoUri = ''C'', mipmapWidth = 100\<rparr>"
    by simp
  note t = cache_key_ignores_pixel_density[OF hX hY]
  have k: "key (cachedAt 100 ''C'' ''C.jpg'')
      = \<lparr>originalPhotoUri = ''C'', mipmapWidth = 100\<rparr>"
    using t[THEN conjunct1, rule_format, OF conjI[OF rX rY]] by (rule conjunct2)
  have f: "store (fst ?Y) \<lparr>originalPhotoUri = ''A'', mipmapWidth = 100\<rparr>
       = store ?w \<lparr>originalPhotoUri = ''A'', mipmapWidth = 100\<rparr>"
    using t[THEN conjunct2, THEN conjunct1, rule_format, OF other] by (rule conjunct2)
  show ?thesis
    by (intro conjI px rX rY k f)
qed

theorem recalculation_rejected_while_busy_witness:
  "events (fst (recalculateCachedPhotos densityTwo (settledUpstream 100 [''A'']) alone
                  (worldOf (storeOf 100 [''A'']))
                  \<lparr>cachedPhotos = [], cachedPhotosLoadingState = CALCULATING\<rparr>))
     = events (worldOf (storeOf 100 [''A''])) @ [Warn]
   \<and> store (fst (recalculateCachedPhotos densityTwo (settledUpstream 100 [''A'']) alone
                  (worldOf (storeOf 100 [''A'']))
                  \<lparr>cachedPhotos = [], cachedPhotosLoadingState = CALCULATING\<rparr>))
     = store (worldOf (storeOf 100 [''A'']))
   \<and> fst (snd (recalculateCachedPhotos densityTwo (settledUpstream 100 [''A'']) alone
                  (worldOf (storeOf 100 [''A'']))
                  \<lparr>cachedPhotos = [], cachedPhotosLoadingState = CALCULATING\<rparr>))
     = \<lparr>cachedPhotos = [], cachedPhotosLoadingState = CALCULATING\<rparr>
   \<and> (\<exists>es. events (fst (recalculateCachedPhotos densityTwo (settledUpstream 100 [''A'']) alone
                  (worldOf (storeOf 100 [''A''])) initialState))
           = events (worldOf (storeOf 100 [''A''])) @
             StoreClear
             # SetState \<lparr>cachedPhotos = [], cachedPhotosLoadingState = CALCULATING\<rparr>
             # es
         \<and> Warn \<notin> set es)"
proof -
  let ?up = "settledUpstream 100 [''A'']"
  let ?w = "worldOf (storeOf 100 [''A''])"
  let ?busy = "\<lparr>cachedPhotos = [], cachedPhotosLoadingState = CALCULATING\<rparr>"
  let ?X = "recalculateCachedPhotos densityTwo ?up alone ?w ?busy"
  let ?Y = "recalculateCachedPhotos densityTwo ?up alone ?w initialState"
  have hX: "?X = (fst ?X, fst (snd ?X), snd (snd ?X))"
    and hY: "?Y = (fst ?Y, fst (snd ?Y), snd (snd ?Y))"
    by simp_all
  have busy: "cachedPhotosLoadingState ?busy = CALCULATING"
    by simp
  have idle: "cachedPhotosLoadingState initialState = IDLE"
    by (simp add: initialState_def)
  note tx = recalculation_rejected_while_busy[OF hX, THEN conjunct1, rule_format, OF disjI2[OF busy]]
  have x: "events (fst ?X) = events ?w @ [Warn]" "store (fst ?X) = store ?w" "fst (snd ?X) = ?busy"
    using tx by simp_all
  have y: "\<exists>es. events (fst ?Y) = events ?w @ StoreClear # SetState ?busy # es \<and> Warn \<notin> set es"
    by (rule recalculation_rejected_while_busy[OF hY, THEN conjunct2, rule_format,
          OF disjI1[OF idle], THEN conjunct1])
  show ?thesis
    by (intro conjI x y)
qed


end
